theory Spec2Isabelle
  imports Main "HOL-Library.AList" "HOL-Library.Multiset"
begin

section \<open>The result differ of Betterer file tests\<close>

text \<open>
  This theory embeds \<^verbatim>\<open>packages/betterer/src/test/file-test/differ.ts\<close> and the
  \<^verbatim>\<open>merge\<close> command of \<^verbatim>\<open>packages/cli/src/merge.ts\<close>.

  Conventions of the embedding.
  \<^item> JavaScript numbers that hold line, column and length are \<open>int\<close>;
    \<^verbatim>\<open>Math.abs(a - b)\<close> is \<open>\<bar>a - b\<bar>\<close>.
  \<^item> An issue or file object is its content. JavaScript compares objects by identity in
    \<^verbatim>\<open>indexOf\<close>, \<^verbatim>\<open>includes\<close> and \<^verbatim>\<open>Map\<close> keys; the embedding
    compares contents. In \<^verbatim>\<open>differ\<close> the two agree wherever an array element is
    looked up in the array it was taken from: the object searched for is always the first
    element of the array that satisfies a predicate of its content (a hash filter, a
    minimal line distance, an exact-match test), so the first element with equal content
    is that object itself. For the \<^verbatim>\<open>Map\<close> of moved files the two agree whenever the
    result snapshot holds no two files of equal content (in particular when paths are
    unique).
  \<^item> A \<^verbatim>\<open>throw\<close> is a value: functions that can throw return \<open>error + 'a\<close>.
  \<^item> The \<^verbatim>\<open>logs\<close> half of the returned object is a rendering of \<^verbatim>\<open>diff\<close> for people
    (it needs \<^verbatim>\<open>Intl.NumberFormat\<close> and the file text); it is not modelled. The
    embedding of \<^verbatim>\<open>differ\<close> returns the \<^verbatim>\<open>diff\<close> object.
\<close>

subsection \<open>Data\<close>

record BettererFileIssue =
  issue_line :: int
  issue_column :: int
  issue_length :: int
  issue_message :: string
  issue_hash :: string

record BettererFileBase =
  absolutePath :: string
  file_hash :: string
  file_issues :: "BettererFileIssue list"

type_synonym BettererFileIssueSerialised = "int \<times> int \<times> int \<times> string \<times> string"

text \<open>A \<^verbatim>\<open>BettererFileDiff\<close> has three optional properties.\<close>

record BettererFileDiff =
  diff_existing :: "BettererFileIssueSerialised list option"
  diff_fixed :: "BettererFileIssueSerialised list option"
  diff_new :: "BettererFileIssueSerialised list option"

text \<open>\<^verbatim>\<open>BettererFilesDiff\<close>: an object whose property names are absolute paths.\<close>

type_synonym BettererFilesDiff = "string \<rightharpoonup> BettererFileDiff"

datatype error = AssertionError | TypeError

definition serialiseIssue :: "BettererFileIssue \<Rightarrow> BettererFileIssueSerialised" where
  "serialiseIssue issue =
     (issue_line issue, issue_column issue, issue_length issue, issue_message issue, issue_hash issue)"

subsection \<open>Array operations of JavaScript\<close>

text \<open>\<^verbatim>\<open>xs.indexOf(x)\<close>: the first index holding \<open>x\<close>, or \<open>-1\<close>.\<close>

fun indexOf :: "'a list \<Rightarrow> 'a \<Rightarrow> int" where
  "indexOf [] x = - 1"
| "indexOf (y # ys) x =
     (if y = x then 0 else (let i = indexOf ys x in if i < 0 then - 1 else i + 1))"

text \<open>
  The array left by \<^verbatim>\<open>xs.splice(start, 1)\<close>: a negative \<open>start\<close> counts from the
  end (so \<open>-1\<close> removes the last element), a \<open>start\<close> past the end removes nothing.
\<close>

definition splice1 :: "int \<Rightarrow> 'a list \<Rightarrow> 'a list" where
  "splice1 start xs =
     (let n = int (length xs);
          s = (if start < 0 then max (n + start) 0 else min start n)
      in take (nat s) xs @ drop (Suc (nat s)) xs)"

text \<open>\<^verbatim>\<open>xs.shift()\<close>: the removed first element (\<^verbatim>\<open>undefined\<close> on an empty array) and the array left.\<close>

definition shift :: "'a list \<Rightarrow> 'a option \<times> 'a list" where
  "shift xs = (case xs of [] \<Rightarrow> (None, []) | x # rest \<Rightarrow> (Some x, rest))"

text \<open>\<^verbatim>\<open>xs.find(p)\<close> is \<^const>\<open>List.find\<close>; a found object is truthy, \<^verbatim>\<open>undefined\<close> is falsy.\<close>

definition truthy :: "'a option \<Rightarrow> bool" where
  "truthy v = (v \<noteq> None)"

subsection \<open>File matching (lines 22 to 57)\<close>

definition unchangedResultFiles ::
  "BettererFileBase list \<Rightarrow> BettererFileBase list \<Rightarrow> BettererFileBase list" where
  "unchangedResultFiles expectedFiles resultFiles =
     filter (\<lambda>r. truthy (find (\<lambda>e. absolutePath e = absolutePath r \<and> file_hash e = file_hash r)
                              expectedFiles)) resultFiles"

definition changedResultFiles ::
  "BettererFileBase list \<Rightarrow> BettererFileBase list \<Rightarrow> BettererFileBase list" where
  "changedResultFiles expectedFiles resultFiles =
     filter (\<lambda>r. truthy (find (\<lambda>e. absolutePath e = absolutePath r \<and> file_hash e \<noteq> file_hash r)
                              expectedFiles)) resultFiles"

definition newOrMovedFiles ::
  "BettererFileBase list \<Rightarrow> BettererFileBase list \<Rightarrow> BettererFileBase list" where
  "newOrMovedFiles expectedFiles resultFiles =
     filter (\<lambda>r. \<not> truthy (find (\<lambda>e. absolutePath e = absolutePath r) expectedFiles)) resultFiles"

definition fixedOrMovedFiles ::
  "BettererFileBase list \<Rightarrow> BettererFileBase list \<Rightarrow> BettererFileBase list" where
  "fixedOrMovedFiles expectedFiles resultFiles =
     filter (\<lambda>e. \<not> truthy (find (\<lambda>r. absolutePath r = absolutePath e) resultFiles)) expectedFiles"

text \<open>
  The state of the move detection: the two working arrays and the \<^verbatim>\<open>movedFiles\<close> map
  (result file to expected file, in insertion order; \<^verbatim>\<open>Map.set\<close> is \<^const>\<open>AList.update\<close>).
\<close>

type_synonym moveState =
  "BettererFileBase list \<times> BettererFileBase list \<times> (BettererFileBase \<times> BettererFileBase) list"

text \<open>The callback of \<^verbatim>\<open>fixedOrMovedFiles.forEach\<close> (lines 37 to 53), at an index that exists.\<close>

definition moveStep :: "nat \<Rightarrow> moveState \<Rightarrow> moveState" where
  "moveStep index st =
     (case st of (fixedOrMoved, newOrMoved, movedFiles) \<Rightarrow>
        (let fixedOrMovedFile = fixedOrMoved ! index;
             possibilities = filter (\<lambda>newOrMovedFile. file_hash newOrMovedFile = file_hash fixedOrMovedFile)
                               newOrMoved
         in if possibilities = [] then st
            else (let moved = hd possibilities
                  in (splice1 (int index) fixedOrMoved,
                      splice1 (indexOf newOrMoved moved) newOrMoved,
                      AList.update moved fixedOrMovedFile movedFiles))))"

text \<open>
  \<^verbatim>\<open>Array.prototype.forEach\<close> reads the length once, before the first call, and then visits
  the indices \<open>0, 1, ..., len - 1\<close> in turn, calling the callback at an index only if the
  array still has it. The callback splices the array it is iterated over, so the loop is
  written out with its index.
\<close>

function forEachFixedOrMoved :: "nat \<Rightarrow> nat \<Rightarrow> moveState \<Rightarrow> moveState" where
  "forEachFixedOrMoved k len st =
     (if k < len
      then forEachFixedOrMoved (Suc k) len (if k < length (fst st) then moveStep k st else st)
      else st)"
  by pat_completeness auto
termination
  by (relation "measure (\<lambda>(k, len, st). len - k)") auto

definition detectMoves :: "BettererFileBase list \<Rightarrow> BettererFileBase list \<Rightarrow> moveState" where
  "detectMoves expectedFiles resultFiles =
     (let fixedOrMoved = fixedOrMovedFiles expectedFiles resultFiles
      in forEachFixedOrMoved 0 (length fixedOrMoved)
           (fixedOrMoved, newOrMovedFiles expectedFiles resultFiles, []))"

definition fixedFiles :: "BettererFileBase list \<Rightarrow> BettererFileBase list \<Rightarrow> BettererFileBase list" where
  "fixedFiles expectedFiles resultFiles = fst (detectMoves expectedFiles resultFiles)"

definition newFiles :: "BettererFileBase list \<Rightarrow> BettererFileBase list \<Rightarrow> BettererFileBase list" where
  "newFiles expectedFiles resultFiles = fst (snd (detectMoves expectedFiles resultFiles))"

definition movedFiles ::
  "BettererFileBase list \<Rightarrow> BettererFileBase list \<Rightarrow> (BettererFileBase \<times> BettererFileBase) list" where
  "movedFiles expectedFiles resultFiles = snd (snd (detectMoves expectedFiles resultFiles))"

subsection \<open>Issue matching for one pair of files (lines 76 to 137)\<close>

text \<open>The test of lines 82 and 87: line, column, length and hash agree (the message is not compared).\<close>

definition sameIssue :: "BettererFileIssue \<Rightarrow> BettererFileIssue \<Rightarrow> bool" where
  "sameIssue e r =
     (issue_line e = issue_line r \<and> issue_column e = issue_column r \<and>
      issue_length e = issue_length r \<and> issue_hash e = issue_hash r)"

definition unchangedExpectedIssues ::
  "BettererFileIssue list \<Rightarrow> BettererFileIssue list \<Rightarrow> BettererFileIssue list" where
  "unchangedExpectedIssues expectedIssues resultIssues =
     filter (\<lambda>r. truthy (find (\<lambda>e. sameIssue e r) resultIssues)) expectedIssues"

definition unchangedResultIssues ::
  "BettererFileIssue list \<Rightarrow> BettererFileIssue list \<Rightarrow> BettererFileIssue list" where
  "unchangedResultIssues expectedIssues resultIssues =
     filter (\<lambda>r. truthy (find (\<lambda>e. sameIssue e r) expectedIssues)) resultIssues"

definition newOrMovedIssues ::
  "BettererFileIssue list \<Rightarrow> BettererFileIssue list \<Rightarrow> BettererFileIssue list" where
  "newOrMovedIssues expectedIssues resultIssues =
     filter (\<lambda>r. r \<notin> set (unchangedResultIssues expectedIssues resultIssues)) resultIssues"

definition fixedOrMovedIssues ::
  "BettererFileIssue list \<Rightarrow> BettererFileIssue list \<Rightarrow> BettererFileIssue list" where
  "fixedOrMovedIssues expectedIssues resultIssues =
     filter (\<lambda>e. e \<notin> set (unchangedExpectedIssues expectedIssues resultIssues)) expectedIssues"

text \<open>
  The callback of \<^verbatim>\<open>possibilities.forEach\<close> (lines 112 to 126), folded over the
  possibilities left after the \<^verbatim>\<open>shift\<close>. \<open>best\<close> is \<open>None\<close> when the variable holds
  \<^verbatim>\<open>undefined\<close>; \<^verbatim>\<open>assert(best)\<close> then throws.
\<close>

fun searchBest ::
  "int \<Rightarrow> int \<Rightarrow> BettererFileIssue option \<Rightarrow> BettererFileIssue list \<Rightarrow> error + BettererFileIssue option" where
  "searchBest line column best [] = Inr best"
| "searchBest line column best (possibility # rest) =
     (case best of
        None \<Rightarrow> Inl AssertionError
      | Some b \<Rightarrow>
          if \<bar>line - issue_line possibility\<bar> \<ge> \<bar>line - issue_line b\<bar>
          then searchBest line column (Some b) rest
          else (let b1 = (if \<bar>line - issue_line possibility\<bar> < \<bar>line - issue_line b\<bar>
                          then possibility else b)
                in if \<bar>column - issue_column possibility\<bar> \<ge> \<bar>column - issue_column b1\<bar>
                   then searchBest line column (Some b1) rest
                   else (let b2 = (if \<bar>column - issue_column possibility\<bar> < \<bar>column - issue_column b1\<bar>
                                   then possibility else b1)
                         in searchBest line column (Some b2) rest)))"

text \<open>The working arrays of the issue loop: \<^verbatim>\<open>newOrMovedIssues\<close>, \<^verbatim>\<open>movedIssues\<close>, \<^verbatim>\<open>fixedIssues\<close>.\<close>

type_synonym issueState =
  "BettererFileIssue list \<times> BettererFileIssue list \<times> BettererFileIssue list"

text \<open>The callback of \<^verbatim>\<open>fixedOrMovedIssues.forEach\<close> (lines 99 to 134).\<close>

definition issueStep :: "BettererFileIssue \<Rightarrow> issueState \<Rightarrow> error + issueState" where
  "issueStep fixedOrMovedIssue st =
     (case st of (newOrMoved, movedIssues, fixedIssues) \<Rightarrow>
        (let hash = issue_hash fixedOrMovedIssue;
             line = issue_line fixedOrMovedIssue;
             column = issue_column fixedOrMovedIssue;
             possibilities = filter (\<lambda>newOrMovedIssue. issue_hash newOrMovedIssue = hash) newOrMoved
         in if possibilities = []
            then Inr (newOrMoved, movedIssues, fixedIssues @ [fixedOrMovedIssue])
            else (case shift possibilities of
                    (best0, possibilities') \<Rightarrow>
                      (case searchBest line column best0 possibilities' of
                         Inl err \<Rightarrow> Inl err
                       | Inr None \<Rightarrow> Inl AssertionError
                       | Inr (Some best) \<Rightarrow>
                           Inr (splice1 (indexOf newOrMoved best) newOrMoved,
                                movedIssues @ [best], fixedIssues)))))"

text \<open>This \<^verbatim>\<open>forEach\<close> runs over an array that its callback does not change.\<close>

fun forEachFixedOrMovedIssue :: "BettererFileIssue list \<Rightarrow> issueState \<Rightarrow> error + issueState" where
  "forEachFixedOrMovedIssue [] st = Inr st"
| "forEachFixedOrMovedIssue (fixedOrMovedIssue # rest) st =
     (case issueStep fixedOrMovedIssue st of
        Inl err \<Rightarrow> Inl err
      | Inr st' \<Rightarrow> forEachFixedOrMovedIssue rest st')"

definition matchIssues ::
  "BettererFileIssue list \<Rightarrow> BettererFileIssue list \<Rightarrow> error + issueState" where
  "matchIssues expectedIssues resultIssues =
     forEachFixedOrMovedIssue (fixedOrMovedIssues expectedIssues resultIssues)
       (newOrMovedIssues expectedIssues resultIssues, [], [])"

text \<open>\<^verbatim>\<open>xs[i]\<close>: \<^verbatim>\<open>undefined\<close> outside the array.\<close>

definition at :: "'a list \<Rightarrow> int \<Rightarrow> 'a option" where
  "at xs i = (if 0 \<le> i \<and> i < int (length xs) then Some (xs ! nat i) else None)"

text \<open>
  \<^verbatim>\<open>xs.map(serialiseIssue)\<close> where an element may be \<^verbatim>\<open>undefined\<close>: reading
  \<^verbatim>\<open>issue.line\<close> of \<^verbatim>\<open>undefined\<close> throws a \<^verbatim>\<open>TypeError\<close>.
\<close>

definition serialiseAll :: "BettererFileIssue option list \<Rightarrow> error + BettererFileIssueSerialised list" where
  "serialiseAll xs = (case those xs of None \<Rightarrow> Inl TypeError | Some ys \<Rightarrow> Inr (map serialiseIssue ys))"

text \<open>
  The body of the \<^verbatim>\<open>existingFiles.forEach\<close> callback from line 76 on, for the issues of the
  expected file and of the result file: \<open>None\<close> is the early \<^verbatim>\<open>return\<close> of line 141,
  \<open>Some d\<close> the object assigned to \<^verbatim>\<open>diff[resultFile.absolutePath]\<close>.
\<close>

definition diffIssues ::
  "BettererFileIssue list \<Rightarrow> BettererFileIssue list \<Rightarrow> error + BettererFileDiff option" where
  "diffIssues expectedIssues resultFileIssues =
     (let resultIssues = resultFileIssues
      in case matchIssues expectedIssues resultIssues of
           Inl err \<Rightarrow> Inl err
         | Inr (newOrMoved, movedIssues, fixedIssues) \<Rightarrow>
             (let newIssues = map (\<lambda>newIssue. at resultFileIssues (indexOf resultIssues newIssue)) newOrMoved
              in if newIssues = [] \<and> fixedIssues = [] then Inr None
                 else (case serialiseAll newIssues of
                         Inl err \<Rightarrow> Inl err
                       | Inr new \<Rightarrow>
                           Inr (Some \<lparr>diff_existing =
                                        Some (map serialiseIssue
                                               (unchangedExpectedIssues expectedIssues resultIssues @ movedIssues)),
                                      diff_fixed = Some (map serialiseIssue fixedIssues),
                                      diff_new = Some new\<rparr>))))"

subsection \<open>The differ (lines 17 to 150)\<close>

text \<open>
  Modelled from the spec: \<^verbatim>\<open>BettererFileTestResult\<Omega>.getFile\<close> lives in
  \<^verbatim>\<open>file-test-result.ts\<close>, which is not among the sources. The spec calls it the
  snapshot's lookup-by-path operation; here it returns the first file of the snapshot with
  the path, and \<open>None\<close> when there is none (the caller then cannot read \<^verbatim>\<open>.issues\<close>).
\<close>

definition getFile :: "BettererFileBase list \<Rightarrow> string \<Rightarrow> BettererFileBase option" where
  "getFile snapshotFiles path = find (\<lambda>f. absolutePath f = path) snapshotFiles"

definition existingFiles :: "BettererFileBase list \<Rightarrow> BettererFileBase list \<Rightarrow> BettererFileBase list" where
  "existingFiles expectedFiles resultFiles =
     unchangedResultFiles expectedFiles resultFiles @ changedResultFiles expectedFiles resultFiles @
     map fst (movedFiles expectedFiles resultFiles)"

text \<open>Line 73: \<^verbatim>\<open>movedFiles.get(resultFile) || expected.getFile(resultFile.absolutePath)\<close>.\<close>

definition expectedFileOf ::
  "BettererFileBase list \<Rightarrow> (BettererFileBase \<times> BettererFileBase) list \<Rightarrow> BettererFileBase \<Rightarrow>
   BettererFileBase option" where
  "expectedFileOf expectedFiles moved resultFile =
     (case map_of moved resultFile of
        Some expectedFile \<Rightarrow> Some expectedFile
      | None \<Rightarrow> getFile expectedFiles (absolutePath resultFile))"

text \<open>The callback of \<^verbatim>\<open>existingFiles.forEach\<close> (lines 72 to 150).\<close>

definition existingStep ::
  "BettererFileBase list \<Rightarrow> (BettererFileBase \<times> BettererFileBase) list \<Rightarrow> BettererFileBase \<Rightarrow>
   BettererFilesDiff \<Rightarrow> error + BettererFilesDiff" where
  "existingStep expectedFiles moved resultFile diff =
     (case expectedFileOf expectedFiles moved resultFile of
        None \<Rightarrow> Inl TypeError
      | Some expectedFile \<Rightarrow>
          (case diffIssues (file_issues expectedFile) (file_issues resultFile) of
             Inl err \<Rightarrow> Inl err
           | Inr None \<Rightarrow> Inr diff
           | Inr (Some d) \<Rightarrow> Inr (diff(absolutePath resultFile \<mapsto> d))))"

fun forEachExisting ::
  "BettererFileBase list \<Rightarrow> (BettererFileBase \<times> BettererFileBase) list \<Rightarrow> BettererFileBase list \<Rightarrow>
   BettererFilesDiff \<Rightarrow> error + BettererFilesDiff" where
  "forEachExisting expectedFiles moved [] diff = Inr diff"
| "forEachExisting expectedFiles moved (resultFile # rest) diff =
     (case existingStep expectedFiles moved resultFile diff of
        Inl err \<Rightarrow> Inl err
      | Inr diff' \<Rightarrow> forEachExisting expectedFiles moved rest diff')"

text \<open>Lines 59 to 69: every fixed file and every new file gets an entry.\<close>

definition fixedEntry :: "BettererFileBase \<Rightarrow> BettererFileDiff" where
  "fixedEntry file =
     \<lparr>diff_existing = None, diff_fixed = Some (map serialiseIssue (file_issues file)), diff_new = None\<rparr>"

definition newEntry :: "BettererFileBase \<Rightarrow> BettererFileDiff" where
  "newEntry file =
     \<lparr>diff_existing = None, diff_fixed = None, diff_new = Some (map serialiseIssue (file_issues file))\<rparr>"

definition differ :: "BettererFileBase list \<Rightarrow> BettererFileBase list \<Rightarrow> error + BettererFilesDiff" where
  "differ expectedFiles resultFiles =
     (let diff0 = Map.empty;
          diff1 = fold (\<lambda>file diff. diff(absolutePath file \<mapsto> fixedEntry file))
                    (fixedFiles expectedFiles resultFiles) diff0;
          diff2 = fold (\<lambda>file diff. diff(absolutePath file \<mapsto> newEntry file))
                    (newFiles expectedFiles resultFiles) diff1
      in forEachExisting expectedFiles (movedFiles expectedFiles resultFiles)
           (existingFiles expectedFiles resultFiles) diff2)"

text \<open>The entry of the returned \<^verbatim>\<open>diff\<close> at a path (\<open>Inr None\<close>: the object has no such property).\<close>

definition entryAt :: "string \<Rightarrow> error + BettererFilesDiff \<Rightarrow> error + BettererFileDiff option" where
  "entryAt path r = (case r of Inl err \<Rightarrow> Inl err | Inr diff \<Rightarrow> Inr (diff path))"

subsection \<open>The differ over a store of arrays\<close>

text \<open>
  The embedding above is pure: it cannot say whether \<^verbatim>\<open>differ\<close> changes the arrays it
  is given. For that question the same code is embedded a second time with its arrays
  in a store. An address is an index of the store; allocation appends. A file object
  holds the address of its \<^verbatim>\<open>issues\<close> array. \<^verbatim>\<open>filter\<close>, the spread \<^verbatim>\<open>[...xs]\<close> and the
  literal \<^verbatim>\<open>[]\<close> allocate a new array; \<^verbatim>\<open>splice\<close>, \<^verbatim>\<open>shift\<close> and \<^verbatim>\<open>push\<close> change
  the array at the address held by the variable they are called on. Every variable of
  the source that holds an array holds an address here. (The arrays made by
  \<^verbatim>\<open>map(serialiseIssue)\<close> are new, hold tuples and are never changed afterwards; they
  are kept as values inside the diff.)
\<close>

type_synonym addr = nat

record FileObject =
  obj_absolutePath :: string
  obj_hash :: string
  obj_issues :: addr

datatype array = FileArray "FileObject list" | IssueArray "BettererFileIssue list"

type_synonym store = "array list"

definition allocate :: "array \<Rightarrow> store \<Rightarrow> addr \<times> store" where
  "allocate a s = (length s, s @ [a])"

text \<open>Reading an array; an address that holds no array of the kind reads as empty.\<close>

definition fileArray :: "store \<Rightarrow> addr \<Rightarrow> FileObject list" where
  "fileArray s a =
     (if a < length s then (case s ! a of FileArray fs \<Rightarrow> fs | IssueArray is \<Rightarrow> []) else [])"

definition issueArray :: "store \<Rightarrow> addr \<Rightarrow> BettererFileIssue list" where
  "issueArray s a =
     (if a < length s then (case s ! a of IssueArray is \<Rightarrow> is | FileArray fs \<Rightarrow> []) else [])"

text \<open>Changing the array at an address in place.\<close>

definition assign :: "addr \<Rightarrow> array \<Rightarrow> store \<Rightarrow> store" where
  "assign a x s = s[a := x]"

text \<open>
  \<^verbatim>\<open>forEach\<close> over the array at an address, as \<^verbatim>\<open>Array.prototype.forEach\<close> runs: the
  length is read once; index \<open>k\<close> is visited only if the array, as it is by then, still
  has it. \<open>rd\<close> reads the array, the callback gets the element, the index, an
  accumulator (the local variables it assigns) and the store; a throw ends the loop.
\<close>

function forEachAt ::
  "(store \<Rightarrow> addr \<Rightarrow> 'x list) \<Rightarrow> addr \<Rightarrow> ('x \<Rightarrow> nat \<Rightarrow> 'a \<Rightarrow> store \<Rightarrow> (error + 'a) \<times> store) \<Rightarrow>
   nat \<Rightarrow> nat \<Rightarrow> 'a \<Rightarrow> store \<Rightarrow> (error + 'a) \<times> store" where
  "forEachAt rd a f k len acc s =
     (if k < len
      then (if k < length (rd s a)
            then (case f (rd s a ! k) k acc s of
                    (Inl err, s') \<Rightarrow> (Inl err, s')
                  | (Inr acc', s') \<Rightarrow> forEachAt rd a f (Suc k) len acc' s')
            else forEachAt rd a f (Suc k) len acc s)
      else (Inr acc, s))"
  by pat_completeness auto
termination
  by (relation "measure (\<lambda>(rd, a, f, k, len, acc, s). len - k)") auto

definition forEachArray ::
  "(store \<Rightarrow> addr \<Rightarrow> 'x list) \<Rightarrow> addr \<Rightarrow> ('x \<Rightarrow> nat \<Rightarrow> 'a \<Rightarrow> store \<Rightarrow> (error + 'a) \<times> store) \<Rightarrow>
   'a \<Rightarrow> store \<Rightarrow> (error + 'a) \<times> store" where
  "forEachArray rd a f acc s = forEachAt rd a f 0 (length (rd s a)) acc s"

text \<open>Lines 22 to 34: four calls of \<^verbatim>\<open>filter\<close>, each allocating its result.\<close>

definition filterFilesS :: "addr \<Rightarrow> addr \<Rightarrow> store \<Rightarrow> (addr \<times> addr \<times> addr \<times> addr) \<times> store" where
  "filterFilesS expected result s0 =
     (let (unchangedResultFiles_ref, s1) =
            allocate (FileArray (filter (\<lambda>r. truthy (find (\<lambda>e. obj_absolutePath e = obj_absolutePath r \<and>
                                                              obj_hash e = obj_hash r)
                                                        (fileArray s0 expected)))
                                   (fileArray s0 result))) s0;
          (changedResultFiles_ref, s2) =
            allocate (FileArray (filter (\<lambda>r. truthy (find (\<lambda>e. obj_absolutePath e = obj_absolutePath r \<and>
                                                              obj_hash e \<noteq> obj_hash r)
                                                        (fileArray s1 expected)))
                                   (fileArray s1 result))) s1;
          (newOrMovedFiles_ref, s3) =
            allocate (FileArray (filter (\<lambda>r. \<not> truthy (find (\<lambda>e. obj_absolutePath e = obj_absolutePath r)
                                                          (fileArray s2 expected)))
                                   (fileArray s2 result))) s2;
          (fixedOrMovedFiles_ref, s4) =
            allocate (FileArray (filter (\<lambda>e. \<not> truthy (find (\<lambda>r. obj_absolutePath r = obj_absolutePath e)
                                                          (fileArray s3 result)))
                                   (fileArray s3 expected))) s3
      in ((unchangedResultFiles_ref, changedResultFiles_ref, newOrMovedFiles_ref, fixedOrMovedFiles_ref), s4))"

text \<open>
  The callback of lines 37 to 53; \<open>fixedOrMovedFiles\<close> and \<open>newOrMovedFiles\<close> are the
  addresses of the two working arrays, the accumulator is the \<^verbatim>\<open>movedFiles\<close> map.
\<close>

definition moveStepS ::
  "addr \<Rightarrow> addr \<Rightarrow> FileObject \<Rightarrow> nat \<Rightarrow> (FileObject \<times> FileObject) list \<Rightarrow> store \<Rightarrow>
   (error + (FileObject \<times> FileObject) list) \<times> store" where
  "moveStepS fixedOrMovedFiles_ref newOrMovedFiles_ref fixedOrMovedFile index movedFiles_ref s =
     (let (possibilities_ref, s1) =
            allocate (FileArray (filter (\<lambda>newOrMovedFile. obj_hash newOrMovedFile = obj_hash fixedOrMovedFile)
                                   (fileArray s newOrMovedFiles_ref))) s
      in if fileArray s1 possibilities_ref = [] then (Inr movedFiles_ref, s1)
         else (let moved = hd (fileArray s1 possibilities_ref);
                   movedFiles' = AList.update moved fixedOrMovedFile movedFiles_ref;
                   s2 = assign fixedOrMovedFiles_ref
                          (FileArray (splice1 (int index) (fileArray s1 fixedOrMovedFiles_ref))) s1;
                   s3 = assign newOrMovedFiles_ref
                          (FileArray (splice1 (indexOf (fileArray s2 newOrMovedFiles_ref) moved)
                                        (fileArray s2 newOrMovedFiles_ref))) s2
               in (Inr movedFiles', s3)))"

text \<open>
  The callback of lines 99 to 134; the three addresses are those of \<^verbatim>\<open>newOrMovedIssues\<close>,
  \<^verbatim>\<open>movedIssues\<close> and \<^verbatim>\<open>fixedIssues\<close>. The inner \<^verbatim>\<open>possibilities.forEach\<close> only assigns
  the local \<^verbatim>\<open>best\<close>; it is \<^const>\<open>searchBest\<close> over the array as the \<^verbatim>\<open>shift\<close> left it.
\<close>

definition issueStepS ::
  "addr \<Rightarrow> addr \<Rightarrow> addr \<Rightarrow> BettererFileIssue \<Rightarrow> nat \<Rightarrow> unit \<Rightarrow> store \<Rightarrow> (error + unit) \<times> store" where
  "issueStepS newOrMovedIssues_ref movedIssues_ref fixedIssues_ref fixedOrMovedIssue index u s =
     (let hash = issue_hash fixedOrMovedIssue;
          line = issue_line fixedOrMovedIssue;
          column = issue_column fixedOrMovedIssue;
          (possibilities_ref, s1) =
            allocate (IssueArray (filter (\<lambda>newOrMovedIssue. issue_hash newOrMovedIssue = hash)
                                    (issueArray s newOrMovedIssues_ref))) s
      in if issueArray s1 possibilities_ref = []
         then (Inr (), assign fixedIssues_ref (IssueArray (issueArray s1 fixedIssues_ref @ [fixedOrMovedIssue])) s1)
         else (case shift (issueArray s1 possibilities_ref) of
                 (best0, rest) \<Rightarrow>
                   (let s2 = assign possibilities_ref (IssueArray rest) s1
                    in case searchBest line column best0 (issueArray s2 possibilities_ref) of
                         Inl err \<Rightarrow> (Inl err, s2)
                       | Inr None \<Rightarrow> (Inl AssertionError, s2)
                       | Inr (Some best) \<Rightarrow>
                           (let s3 = assign newOrMovedIssues_ref
                                       (IssueArray (splice1 (indexOf (issueArray s2 newOrMovedIssues_ref) best)
                                                      (issueArray s2 newOrMovedIssues_ref))) s2;
                                s4 = assign movedIssues_ref (IssueArray (issueArray s3 movedIssues_ref @ [best])) s3
                            in (Inr (), s4)))))"

text \<open>
  Lines 76 to 98 for a pair of files: the arrays the issue matching works on.
  \<open>expectedIssues_ref\<close> is the address held by \<^verbatim>\<open>expectedFile.issues\<close> itself (line 77
  makes no copy), \<open>resultFileIssues_ref\<close> the one held by \<^verbatim>\<open>resultFile.issues\<close>, which
  line 76 copies. The result: the addresses of \<^verbatim>\<open>resultIssues\<close>,
  \<^verbatim>\<open>unchangedExpectedIssues\<close>, \<^verbatim>\<open>newOrMovedIssues\<close>, \<^verbatim>\<open>fixedOrMovedIssues\<close>,
  \<^verbatim>\<open>movedIssues\<close> and \<^verbatim>\<open>fixedIssues\<close>.
\<close>

definition filterIssuesS ::
  "addr \<Rightarrow> addr \<Rightarrow> store \<Rightarrow> (addr \<times> addr \<times> addr \<times> addr \<times> addr \<times> addr) \<times> store" where
  "filterIssuesS expectedIssues_ref resultFileIssues_ref s0 =
     (let (resultIssues_ref, s1) = allocate (IssueArray (issueArray s0 resultFileIssues_ref)) s0;
          (unchangedExpectedIssues_ref, s2) =
            allocate (IssueArray (filter (\<lambda>r. truthy (find (\<lambda>e. sameIssue e r) (issueArray s1 resultIssues_ref)))
                                    (issueArray s1 expectedIssues_ref))) s1;
          (unchangedResultIssues_ref, s3) =
            allocate (IssueArray (filter (\<lambda>r. truthy (find (\<lambda>e. sameIssue e r) (issueArray s2 expectedIssues_ref)))
                                    (issueArray s2 resultIssues_ref))) s2;
          (newOrMovedIssues_ref, s4) =
            allocate (IssueArray (filter (\<lambda>r. r \<notin> set (issueArray s3 unchangedResultIssues_ref))
                                    (issueArray s3 resultIssues_ref))) s3;
          (fixedOrMovedIssues_ref, s5) =
            allocate (IssueArray (filter (\<lambda>e. e \<notin> set (issueArray s4 unchangedExpectedIssues_ref))
                                    (issueArray s4 expectedIssues_ref))) s4;
          (movedIssues_ref, s6) = allocate (IssueArray []) s5;
          (fixedIssues_ref, s7) = allocate (IssueArray []) s6
      in ((resultIssues_ref, unchangedExpectedIssues_ref, newOrMovedIssues_ref, fixedOrMovedIssues_ref,
           movedIssues_ref, fixedIssues_ref), s7))"

text \<open>Lines 76 to 149: the body of the \<^verbatim>\<open>existingFiles.forEach\<close> callback for a pair of files.\<close>

definition diffIssuesS :: "addr \<Rightarrow> addr \<Rightarrow> store \<Rightarrow> (error + BettererFileDiff option) \<times> store" where
  "diffIssuesS expectedIssues_ref resultFileIssues_ref s0 =
     (case filterIssuesS expectedIssues_ref resultFileIssues_ref s0 of
        ((resultIssues_ref, unchangedExpectedIssues_ref, newOrMovedIssues_ref, fixedOrMovedIssues_ref,
          movedIssues_ref, fixedIssues_ref), s7) \<Rightarrow>
          (case forEachArray issueArray fixedOrMovedIssues_ref
                  (issueStepS newOrMovedIssues_ref movedIssues_ref fixedIssues_ref) () s7 of
             (Inl err, s8) \<Rightarrow> (Inl err, s8)
           | (Inr u, s8) \<Rightarrow>
               (let newIssues = map (\<lambda>newIssue. at (issueArray s8 resultFileIssues_ref)
                                                    (indexOf (issueArray s8 resultIssues_ref) newIssue))
                                  (issueArray s8 newOrMovedIssues_ref)
                in if newIssues = [] \<and> issueArray s8 fixedIssues_ref = [] then (Inr None, s8)
                   else (case serialiseAll newIssues of
                           Inl err \<Rightarrow> (Inl err, s8)
                         | Inr new \<Rightarrow>
                             (Inr (Some \<lparr>diff_existing =
                                           Some (map serialiseIssue
                                                  (issueArray s8 unchangedExpectedIssues_ref @
                                                   issueArray s8 movedIssues_ref)),
                                         diff_fixed = Some (map serialiseIssue (issueArray s8 fixedIssues_ref)),
                                         diff_new = Some new\<rparr>), s8)))))"

text \<open>
  Modelled from the spec: \<^verbatim>\<open>getFile\<close> over the store, the lookup by path in the expected
  snapshot's array of files (see \<^const>\<open>getFile\<close>).
\<close>

definition getFileS :: "store \<Rightarrow> addr \<Rightarrow> string \<Rightarrow> FileObject option" where
  "getFileS s snapshotFiles path = find (\<lambda>f. obj_absolutePath f = path) (fileArray s snapshotFiles)"

text \<open>The callback of lines 72 to 150; the accumulator is the \<^verbatim>\<open>diff\<close> object.\<close>

definition existingStepS ::
  "addr \<Rightarrow> (FileObject \<times> FileObject) list \<Rightarrow> FileObject \<Rightarrow> nat \<Rightarrow> BettererFilesDiff \<Rightarrow> store \<Rightarrow>
   (error + BettererFilesDiff) \<times> store" where
  "existingStepS expected movedFiles_ref resultFile index diff s =
     (case (case map_of movedFiles_ref resultFile of
              Some expectedFile \<Rightarrow> Some expectedFile
            | None \<Rightarrow> getFileS s expected (obj_absolutePath resultFile)) of
        None \<Rightarrow> (Inl TypeError, s)
      | Some expectedFile \<Rightarrow>
          (case diffIssuesS (obj_issues expectedFile) (obj_issues resultFile) s of
             (Inl err, s') \<Rightarrow> (Inl err, s')
           | (Inr None, s') \<Rightarrow> (Inr diff, s')
           | (Inr (Some d), s') \<Rightarrow> (Inr (diff(obj_absolutePath resultFile \<mapsto> d)), s')))"

text \<open>Lines 59 to 69: the two loops read the issues of each file; they change no array.\<close>

definition fixedEntryS :: "store \<Rightarrow> FileObject \<Rightarrow> BettererFileDiff" where
  "fixedEntryS s file =
     \<lparr>diff_existing = None, diff_fixed = Some (map serialiseIssue (issueArray s (obj_issues file))),
      diff_new = None\<rparr>"

definition newEntryS :: "store \<Rightarrow> FileObject \<Rightarrow> BettererFileDiff" where
  "newEntryS s file =
     \<lparr>diff_existing = None, diff_fixed = None,
      diff_new = Some (map serialiseIssue (issueArray s (obj_issues file)))\<rparr>"

text \<open>
  \<^verbatim>\<open>differ\<close> for the snapshots whose \<^verbatim>\<open>files\<close> arrays are at \<open>expected\<close> and \<open>result\<close>:
  the diff (or the throw) and the store it leaves.
\<close>

definition differS :: "addr \<Rightarrow> addr \<Rightarrow> store \<Rightarrow> (error + BettererFilesDiff) \<times> store" where
  "differS expected result s0 =
     (case filterFilesS expected result s0 of
        ((unchangedResultFiles_ref, changedResultFiles_ref, newOrMovedFiles_ref, fixedOrMovedFiles_ref), s1) \<Rightarrow>
          (case forEachArray fileArray fixedOrMovedFiles_ref
                  (moveStepS fixedOrMovedFiles_ref newOrMovedFiles_ref) [] s1 of
             (Inl err, s2) \<Rightarrow> (Inl err, s2)
           | (Inr movedFiles_ref, s2) \<Rightarrow>
               (let fixedFiles_ref = fixedOrMovedFiles_ref;
                    newFiles_ref = newOrMovedFiles_ref;
                    diff1 = fold (\<lambda>file diff. diff(obj_absolutePath file \<mapsto> fixedEntryS s2 file))
                              (fileArray s2 fixedFiles_ref) Map.empty;
                    diff2 = fold (\<lambda>file diff. diff(obj_absolutePath file \<mapsto> newEntryS s2 file))
                              (fileArray s2 newFiles_ref) diff1;
                    (existingFiles_ref, s3) =
                      allocate (FileArray (fileArray s2 unchangedResultFiles_ref @ fileArray s2 changedResultFiles_ref @
                                           map fst movedFiles_ref)) s2
                in forEachArray fileArray existingFiles_ref (existingStepS expected movedFiles_ref) diff2 s3)))"

text \<open>The content of a file object: the file of the pure embedding that it stands for.\<close>

definition fileOf :: "store \<Rightarrow> FileObject \<Rightarrow> BettererFileBase" where
  "fileOf s f =
     \<lparr>absolutePath = obj_absolutePath f, file_hash = obj_hash f,
      file_issues = issueArray s (obj_issues f)\<rparr>"

definition snapshotOf :: "store \<Rightarrow> addr \<Rightarrow> BettererFileBase list" where
  "snapshotOf s a = map (fileOf s) (fileArray s a)"

subsection \<open>The merge command (packages/cli/src/merge.ts, lines 13 to 28)\<close>

text \<open>
  The action runs in a process whose state holds \<^verbatim>\<open>process.exitCode\<close> (\<open>None\<close>:
  never set) and whatever else (the record's extension). \<^verbatim>\<open>setEnv\<close> (from
  \<^verbatim>\<open>./options\<close>) and \<^verbatim>\<open>betterer.merge\<close> (from \<^verbatim>\<open>@betterer/betterer\<close>) are not
  among the sources: both are parameters, computations that may change the process state
  and either return or throw (a rejected promise under \<^verbatim>\<open>await\<close> is a throw).
\<close>

record process =
  exitCode :: "int option"

record BettererCLIMergeConfig =
  results :: string

record BettererOptionsMerge =
  contents :: "string list"
  cwd :: string
  resultsPath :: string

definition mergeAction ::
  "('c BettererCLIMergeConfig_scheme \<Rightarrow> 'p process_scheme \<Rightarrow> ('e + unit) \<times> 'p process_scheme) \<Rightarrow>
   (BettererOptionsMerge \<Rightarrow> 'p process_scheme \<Rightarrow> ('e + unit) \<times> 'p process_scheme) \<Rightarrow>
   string \<Rightarrow> 'c BettererCLIMergeConfig_scheme \<Rightarrow> string list \<Rightarrow>
   'p process_scheme \<Rightarrow> ('e + unit) \<times> 'p process_scheme" where
  "mergeAction setEnv betterer_merge cwd' config args proc =
     (case setEnv config proc of
        (Inl err, proc1) \<Rightarrow> (Inl err, proc1)
      | (Inr u, proc1) \<Rightarrow>
          (let options = \<lparr>contents = args, cwd = cwd', resultsPath = results config\<rparr>
           in case betterer_merge options proc1 of
                (Inl err, proc2) \<Rightarrow> (Inr (), proc2\<lparr>exitCode := Some 1\<rparr>)
              | (Inr u', proc2) \<Rightarrow> (Inr (), proc2)))"

subsection \<open>Predicates and characterisations used in the statements and proofs\<close>

text \<open>Exactly one of the listed conditions holds.\<close>

definition exactlyOne :: "bool list \<Rightarrow> bool" where
  "exactlyOne bs = (length (filter (\<lambda>b. b) bs) = 1)"

text \<open>
  The gate of line 140 for a pair of files: the issue loop leaves a new issue or a fixed
  issue.
\<close>

definition issuesChanged :: "BettererFileBase \<Rightarrow> BettererFileBase \<Rightarrow> bool" where
  "issuesChanged expectedFile resultFile =
     (case matchIssues (file_issues expectedFile) (file_issues resultFile) of
        Inl err \<Rightarrow> False
      | Inr (newIssues, movedIssues, fixedIssues) \<Rightarrow> newIssues \<noteq> [] \<or> fixedIssues \<noteq> [])"

text \<open>
  The gate for a result file handled by the \<^verbatim>\<open>existingFiles\<close> loop, against the expected
  file that line 73 pairs it with.
\<close>

definition reported ::
  "BettererFileBase list \<Rightarrow> (BettererFileBase \<times> BettererFileBase) list \<Rightarrow> BettererFileBase \<Rightarrow> bool" where
  "reported expectedFiles moved resultFile =
     (case expectedFileOf expectedFiles moved resultFile of
        None \<Rightarrow> False
      | Some expectedFile \<Rightarrow> issuesChanged expectedFile resultFile)"

text \<open>
  What the search of lines 109 to 126 computes (see \<open>searchBest_nearestLine\<close>): starting
  from the first possibility, a later one replaces the current best only when it is
  strictly nearer in lines.
\<close>

fun nearestLine :: "int \<Rightarrow> BettererFileIssue \<Rightarrow> BettererFileIssue list \<Rightarrow> BettererFileIssue" where
  "nearestLine l b [] = b"
| "nearestLine l b (p # ps) =
     nearestLine l (if \<bar>l - issue_line p\<bar> < \<bar>l - issue_line b\<bar> then p else b) ps"

text \<open>The invariant of the move detection, relative to the two arrays it starts from.\<close>

definition moveInv :: "BettererFileBase list \<Rightarrow> BettererFileBase list \<Rightarrow> moveState \<Rightarrow> bool" where
  "moveInv fom0 nom0 st =
     (case st of (fom, nom, mv) \<Rightarrow>
        mset fom + mset (map snd mv) = mset fom0 \<and>
        mset nom + mset (map fst mv) = mset nom0 \<and>
        (\<forall>(r, e) \<in> set mv. file_hash r = file_hash e))"

text \<open>
  A store \<open>s\<close> keeps a store \<open>s0\<close>: every address of \<open>s0\<close> is an address of \<open>s\<close> and holds
  the same array.
\<close>

definition preserved :: "store \<Rightarrow> store \<Rightarrow> bool" where
  "preserved s0 s = (length s0 \<le> length s \<and> take (length s0) s = s0)"

text \<open>Two stores agree on the addresses of the first except those in a set.\<close>

definition sameExcept :: "addr set \<Rightarrow> store \<Rightarrow> store \<Rightarrow> bool" where
  "sameExcept A s s' = (length s \<le> length s' \<and> (\<forall>b < length s. b \<notin> A \<longrightarrow> s' ! b = s ! b))"

text \<open>
  A snapshot of the store: its array of files and the issue array of each of its files
  are arrays of the store.
\<close>

definition snapshotIn :: "store \<Rightarrow> addr \<Rightarrow> bool" where
  "snapshotIn s a = (a < length s \<and> list_all (\<lambda>f. obj_issues f < length s) (fileArray s a))"

subsection \<open>Notation for concrete snapshots\<close>

text \<open>Short forms for the issues and files of the examples (length 5 and message \<open>m\<close> throughout).\<close>

definition mkIssue :: "int \<Rightarrow> int \<Rightarrow> string \<Rightarrow> BettererFileIssue" where
  "mkIssue l c h =
     \<lparr>issue_line = l, issue_column = c, issue_length = 5, issue_message = ''m'', issue_hash = h\<rparr>"

definition mkFile :: "string \<Rightarrow> string \<Rightarrow> BettererFileIssue list \<Rightarrow> BettererFileBase" where
  "mkFile path h issues = \<lparr>absolutePath = path, file_hash = h, file_issues = issues\<rparr>"

text \<open>The store of the examples: two issue arrays and the file arrays of two snapshots.\<close>

definition exampleStore :: store where
  "exampleStore =
     [IssueArray [mkIssue 10 5 ''X''],
      IssueArray [mkIssue 11 9 ''X'', mkIssue 30 1 ''Y''],
      FileArray [\<lparr>obj_absolutePath = ''/a'', obj_hash = ''h1'', obj_issues = 0\<rparr>],
      FileArray [\<lparr>obj_absolutePath = ''/a'', obj_hash = ''h2'', obj_issues = 1\<rparr>]]"

section \<open>Properties\<close>

subsection \<open>Array operations\<close>

lemma indexOf_nonneg_iff: "(0 \<le> indexOf xs x) = (x \<in> set xs)"
  by (induction xs) (auto simp: Let_def)

lemma indexOf_bound: "indexOf xs x < int (length xs)"
  by (induction xs) (auto simp: Let_def)

lemma indexOf_nth: "x \<in> set xs \<Longrightarrow> xs ! nat (indexOf xs x) = x"
proof (induction xs)
  case Nil
  then show ?case by simp
next
  case (Cons y ys)
  show ?case
  proof (cases "y = x")
    case True
    then show ?thesis by simp
  next
    case False
    with Cons.prems have mem: "x \<in> set ys" by simp
    have nn: "0 \<le> indexOf ys x" using mem by (simp add: indexOf_nonneg_iff)
    have "nat (indexOf ys x + 1) = Suc (nat (indexOf ys x))" using nn by simp
    then show ?thesis using False nn Cons.IH[OF mem] by (simp add: Let_def)
  qed
qed

lemma at_indexOf: "x \<in> set xs \<Longrightarrow> at xs (indexOf xs x) = Some x"
  by (simp add: at_def indexOf_nonneg_iff indexOf_bound indexOf_nth)

lemma splice1_nat: "k < length xs \<Longrightarrow> splice1 (int k) xs = take k xs @ drop (Suc k) xs"
  by (simp add: splice1_def Let_def min_def)

text \<open>Splicing at the index of an element removes its first occurrence.\<close>

lemma splice1_indexOf: "x \<in> set xs \<Longrightarrow> splice1 (indexOf xs x) xs = remove1 x xs"
proof (induction xs)
  case Nil
  then show ?case by simp
next
  case (Cons y ys)
  show ?case
  proof (cases "y = x")
    case True
    then show ?thesis by (simp add: splice1_def)
  next
    case False
    with Cons.prems have mem: "x \<in> set ys" by simp
    have nn: "0 \<le> indexOf ys x" using mem by (simp add: indexOf_nonneg_iff)
    have b: "indexOf ys x < int (length ys)" by (rule indexOf_bound)
    have "splice1 (indexOf ys x) ys = remove1 x ys" using Cons.IH mem by simp
    then show ?thesis using False nn b
      by (simp add: splice1_def Let_def min_def nat_add_distrib)
  qed
qed

lemma truthy_find: "truthy (find P xs) = (\<exists>x \<in> set xs. P x)"
  by (auto simp: truthy_def find_None_iff)

subsection \<open>The search for the nearest possibility\<close>

lemma searchBest_nearestLine: "searchBest l c (Some b) ps = Inr (Some (nearestLine l b ps))"
  by (induction ps arbitrary: b) (auto simp: Let_def)

lemma nearestLine_mem: "nearestLine l b ps \<in> set (b # ps)"
  by (induction ps arbitrary: b) auto

lemma nearestLine_min:
  "x \<in> set (b # ps) \<Longrightarrow> \<bar>l - issue_line (nearestLine l b ps)\<bar> \<le> \<bar>l - issue_line x\<bar>"
proof (induction ps arbitrary: b x)
  case Nil
  then show ?case by simp
next
  case (Cons p ps)
  let ?b' = "if \<bar>l - issue_line p\<bar> < \<bar>l - issue_line b\<bar> then p else b"
  have le_b': "\<bar>l - issue_line (nearestLine l ?b' ps)\<bar> \<le> \<bar>l - issue_line ?b'\<bar>"
    using Cons.IH[where b = ?b' and x = ?b'] by simp
  have "x = b \<or> x = p \<or> x \<in> set ps" using Cons.prems by auto
  then show ?case
  proof (elim disjE)
    assume "x = b"
    then show ?thesis using le_b' by (simp split: if_splits)
  next
    assume "x = p"
    then show ?thesis using le_b' by (simp split: if_splits)
  next
    assume "x \<in> set ps"
    then show ?thesis using Cons.IH[where b = ?b' and x = x] by simp
  qed
qed

text \<open>One round of the issue loop, with the search and the splice resolved.\<close>

lemma issueStep_cases:
  "issueStep e (n, m, f) =
     (let ps = filter (\<lambda>x. issue_hash x = issue_hash e) n
      in if ps = [] then Inr (n, m, f @ [e])
         else (let best = nearestLine (issue_line e) (hd ps) (tl ps)
               in Inr (remove1 best n, m @ [best], f)))"
proof (cases "filter (\<lambda>x. issue_hash x = issue_hash e) n")
  case Nil
  then show ?thesis by (simp add: issueStep_def)
next
  case (Cons p ps)
  have "nearestLine (issue_line e) p ps \<in> set (p # ps)" by (rule nearestLine_mem)
  then have "nearestLine (issue_line e) p ps \<in> set (filter (\<lambda>x. issue_hash x = issue_hash e) n)"
    using Cons by simp
  then have "nearestLine (issue_line e) p ps \<in> set n" by simp
  then show ?thesis using Cons
    by (simp add: issueStep_def shift_def searchBest_nearestLine splice1_indexOf Let_def)
qed

lemma best_in_pool:
  assumes "filter (\<lambda>x. issue_hash x = h) n \<noteq> []"
  shows "nearestLine l (hd (filter (\<lambda>x. issue_hash x = h) n)) (tl (filter (\<lambda>x. issue_hash x = h) n)) \<in> set n
     \<and> issue_hash (nearestLine l (hd (filter (\<lambda>x. issue_hash x = h) n)) (tl (filter (\<lambda>x. issue_hash x = h) n))) = h"
proof -
  let ?ps = "filter (\<lambda>x. issue_hash x = h) n"
  have "nearestLine l (hd ?ps) (tl ?ps) \<in> set (hd ?ps # tl ?ps)" by (rule nearestLine_mem)
  then have "nearestLine l (hd ?ps) (tl ?ps) \<in> set ?ps" using assms by simp
  then show ?thesis by simp
qed

subsection \<open>The issue loop\<close>

text \<open>
  The issue loop never throws. It only appends to \<^verbatim>\<open>movedIssues\<close> and
  \<^verbatim>\<open>fixedIssues\<close>; every issue it is run over ends up fixed or is paired with a moved
  result issue of the same hash; and the pool loses exactly the moved issues.
\<close>

lemma forEachFixedOrMovedIssue_total:
  "\<exists>n' mv fx mf. forEachFixedOrMovedIssue es (n, m, f) = Inr (n', m @ mv, f @ fx) \<and>
      mset es = mset fx + mset mf \<and>
      map issue_hash mf = map issue_hash mv \<and>
      mset n = mset n' + mset mv"
proof (induction es arbitrary: n m f)
  case Nil
  show ?case by (rule exI[of _ n], rule exI[of _ "[]"], rule exI[of _ "[]"], rule exI[of _ "[]"]) simp
next
  case (Cons e es)
  let ?ps = "filter (\<lambda>x. issue_hash x = issue_hash e) n"
  show ?case
  proof (cases "?ps = []")
    case True
    from Cons.IH[of n m "f @ [e]"] obtain n' mv fx mf where
      h: "forEachFixedOrMovedIssue es (n, m, f @ [e]) = Inr (n', m @ mv, (f @ [e]) @ fx)"
         "mset es = mset fx + mset mf" "map issue_hash mf = map issue_hash mv"
         "mset n = mset n' + mset mv" by blast
    show ?thesis
      apply (rule exI[of _ n'], rule exI[of _ mv], rule exI[of _ "e # fx"], rule exI[of _ mf])
      using h True by (simp add: issueStep_cases)
  next
    case False
    let ?best = "nearestLine (issue_line e) (hd ?ps) (tl ?ps)"
    have bm: "?best \<in> set n" and bh: "issue_hash ?best = issue_hash e"
      using best_in_pool[OF False] by simp_all
    from Cons.IH[of "remove1 ?best n" "m @ [?best]" f] obtain n' mv fx mf where
      h: "forEachFixedOrMovedIssue es (remove1 ?best n, m @ [?best], f) = Inr (n', (m @ [?best]) @ mv, f @ fx)"
         "mset es = mset fx + mset mf" "map issue_hash mf = map issue_hash mv"
         "mset (remove1 ?best n) = mset n' + mset mv" by blast
    have "mset n = mset (remove1 ?best n) + {#?best#}" using bm by simp
    then have mn: "mset n = mset n' + mset (?best # mv)" using h(4) by simp
    show ?thesis
      apply (rule exI[of _ n'], rule exI[of _ "?best # mv"], rule exI[of _ fx], rule exI[of _ "e # mf"])
      using h(1,2,3) mn False bh by (simp add: issueStep_cases Let_def)
  qed
qed

lemma matchIssues_total:
  "\<exists>new mv fx mf. matchIssues expectedIssues resultIssues = Inr (new, mv, fx) \<and>
      mset (fixedOrMovedIssues expectedIssues resultIssues) = mset fx + mset mf \<and>
      map issue_hash mf = map issue_hash mv \<and>
      mset (newOrMovedIssues expectedIssues resultIssues) = mset new + mset mv"
  using forEachFixedOrMovedIssue_total[of "fixedOrMovedIssues expectedIssues resultIssues"
          "newOrMovedIssues expectedIssues resultIssues" "[]" "[]"]
  by (simp add: matchIssues_def)

subsection \<open>The file callback and the loop over existing files\<close>

lemma those_map_Some: "those (map Some xs) = Some xs"
  by (induction xs) auto

lemma serialiseAll_Some: "serialiseAll (map Some xs) = Inr (map serialiseIssue xs)"
  by (simp add: serialiseAll_def those_map_Some)

lemma matchIssues_new_subset:
  assumes "matchIssues expectedIssues resultIssues = Inr (new, mv, fx)"
  shows "set new \<subseteq> set resultIssues"
proof -
  from matchIssues_total[of expectedIssues resultIssues] assms
  have "mset (newOrMovedIssues expectedIssues resultIssues) = mset new + mset mv" by auto
  then have "set new \<subseteq> set (newOrMovedIssues expectedIssues resultIssues)"
    by (metis mset_subset_eq_add_left set_mset_mono set_mset_mset)
  then show ?thesis by (auto simp: newOrMovedIssues_def)
qed

text \<open>The file callback never throws; its outcome follows the gate of line 140.\<close>

lemma diffIssues_cases:
  assumes "matchIssues expectedIssues resultIssues = Inr (new, mv, fx)"
  shows "diffIssues expectedIssues resultIssues =
           (if new = [] \<and> fx = [] then Inr None
            else Inr (Some \<lparr>diff_existing =
                               Some (map serialiseIssue (unchangedExpectedIssues expectedIssues resultIssues @ mv)),
                             diff_fixed = Some (map serialiseIssue fx),
                             diff_new = Some (map serialiseIssue new)\<rparr>))"
proof -
  have eq: "map (\<lambda>x. at resultIssues (indexOf resultIssues x)) new = map Some new"
    using matchIssues_new_subset[OF assms] by (auto simp: at_indexOf)
  show ?thesis unfolding diffIssues_def Let_def assms
    by (simp only: eq serialiseAll_Some prod.case sum.case map_is_Nil_conv map_append)
qed

lemma diffIssues_reported:
  "\<exists>r. diffIssues (file_issues e) (file_issues f) = Inr r \<and> (r \<noteq> None) = issuesChanged e f"
proof -
  obtain new mv fx where m: "matchIssues (file_issues e) (file_issues f) = Inr (new, mv, fx)"
    using matchIssues_total by blast
  show ?thesis using diffIssues_cases[OF m] m by (auto simp: issuesChanged_def)
qed

lemma existingStep_cases:
  assumes "expectedFileOf expectedFiles moved r \<noteq> None"
  shows "\<exists>d'. existingStep expectedFiles moved r d = Inr d' \<and>
           (\<forall>p. (d' p \<noteq> None) = (d p \<noteq> None \<or> (absolutePath r = p \<and> reported expectedFiles moved r)))"
proof -
  from assms obtain e where e: "expectedFileOf expectedFiles moved r = Some e" by auto
  obtain res where res: "diffIssues (file_issues e) (file_issues r) = Inr res"
     "(res \<noteq> None) = issuesChanged e r" using diffIssues_reported by blast
  show ?thesis
  proof (cases res)
    case None
    then show ?thesis using e res by (simp add: existingStep_def reported_def)
  next
    case (Some x)
    then show ?thesis using e res by (auto simp: existingStep_def reported_def)
  qed
qed

lemma forEachExisting_cases:
  assumes "\<forall>r \<in> set rs. expectedFileOf expectedFiles moved r \<noteq> None"
  shows "\<exists>d'. forEachExisting expectedFiles moved rs d = Inr d' \<and>
           (\<forall>p. (d' p \<noteq> None) =
                 (d p \<noteq> None \<or> (\<exists>r \<in> set rs. absolutePath r = p \<and> reported expectedFiles moved r)))"
  using assms
proof (induction rs arbitrary: d)
  case Nil
  then show ?case by simp
next
  case (Cons r rs)
  from Cons.prems have "expectedFileOf expectedFiles moved r \<noteq> None" by simp
  from existingStep_cases[OF this, of d] obtain d1 where
    d1: "existingStep expectedFiles moved r d = Inr d1"
        "\<forall>p. (d1 p \<noteq> None) = (d p \<noteq> None \<or> (absolutePath r = p \<and> reported expectedFiles moved r))"
    by blast
  from Cons.IH[of d1] Cons.prems obtain d' where
    d': "forEachExisting expectedFiles moved rs d1 = Inr d'"
        "\<forall>p. (d' p \<noteq> None) =
                 (d1 p \<noteq> None \<or> (\<exists>r \<in> set rs. absolutePath r = p \<and> reported expectedFiles moved r))"
    by auto
  show ?case
    apply (rule exI[of _ d'])
    using d1 d' by auto
qed

lemma fold_entries:
  "(fold (\<lambda>file diff. diff(absolutePath file \<mapsto> g file)) fs d p \<noteq> None) =
     (d p \<noteq> None \<or> (\<exists>f \<in> set fs. absolutePath f = p))"
  by (induction fs arbitrary: d) auto

lemma existingFiles_expected:
  assumes "r \<in> set (existingFiles expectedFiles resultFiles)"
  shows "expectedFileOf expectedFiles (movedFiles expectedFiles resultFiles) r \<noteq> None"
proof -
  from assms consider
      (same) "\<exists>e \<in> set expectedFiles. absolutePath e = absolutePath r"
    | (moved) "r \<in> fst ` set (movedFiles expectedFiles resultFiles)"
    by (auto simp: existingFiles_def unchangedResultFiles_def changedResultFiles_def truthy_find)
  then show ?thesis
  proof cases
    case same
    then have "getFile expectedFiles (absolutePath r) \<noteq> None"
      by (auto simp: getFile_def find_None_iff)
    then show ?thesis by (auto simp: expectedFileOf_def split: option.splits)
  next
    case moved
    then have "map_of (movedFiles expectedFiles resultFiles) r \<noteq> None"
      by (simp add: map_of_eq_None_iff)
    then show ?thesis by (auto simp: expectedFileOf_def split: option.splits)
  qed
qed

lemma differ_cases:
  "\<exists>diff. differ expectedFiles resultFiles = Inr diff \<and>
     (\<forall>path. (diff path \<noteq> None) =
        ((\<exists>f \<in> set (fixedFiles expectedFiles resultFiles). absolutePath f = path) \<or>
         (\<exists>f \<in> set (newFiles expectedFiles resultFiles). absolutePath f = path) \<or>
         (\<exists>r \<in> set (existingFiles expectedFiles resultFiles).
             absolutePath r = path \<and> reported expectedFiles (movedFiles expectedFiles resultFiles) r)))"
proof -
  let ?d1 = "fold (\<lambda>file diff. diff(absolutePath file \<mapsto> fixedEntry file))
               (fixedFiles expectedFiles resultFiles) Map.empty"
  let ?d2 = "fold (\<lambda>file diff. diff(absolutePath file \<mapsto> newEntry file))
               (newFiles expectedFiles resultFiles) ?d1"
  have ex: "\<forall>r \<in> set (existingFiles expectedFiles resultFiles).
              expectedFileOf expectedFiles (movedFiles expectedFiles resultFiles) r \<noteq> None"
    using existingFiles_expected by blast
  from forEachExisting_cases[OF ex, of ?d2] obtain d' where
    d': "forEachExisting expectedFiles (movedFiles expectedFiles resultFiles)
           (existingFiles expectedFiles resultFiles) ?d2 = Inr d'"
        "\<forall>p. (d' p \<noteq> None) =
             (?d2 p \<noteq> None \<or> (\<exists>r \<in> set (existingFiles expectedFiles resultFiles).
                  absolutePath r = p \<and> reported expectedFiles (movedFiles expectedFiles resultFiles) r))"
    by blast
  have dd: "differ expectedFiles resultFiles = Inr d'"
    using d'(1) by (simp add: differ_def)
  have d1: "\<And>p. (?d1 p \<noteq> None) = (\<exists>f \<in> set (fixedFiles expectedFiles resultFiles). absolutePath f = p)"
    by (simp only: fold_entries) simp
  have d2: "\<And>p. (?d2 p \<noteq> None) =
      (?d1 p \<noteq> None \<or> (\<exists>f \<in> set (newFiles expectedFiles resultFiles). absolutePath f = p))"
    by (rule fold_entries)
  have "\<forall>path. (d' path \<noteq> None) =
        ((\<exists>f \<in> set (fixedFiles expectedFiles resultFiles). absolutePath f = path) \<or>
         (\<exists>f \<in> set (newFiles expectedFiles resultFiles). absolutePath f = path) \<or>
         (\<exists>r \<in> set (existingFiles expectedFiles resultFiles).
             absolutePath r = path \<and> reported expectedFiles (movedFiles expectedFiles resultFiles) r))"
  proof (intro allI)
    fix path
    have "(d' path \<noteq> None) =
             (?d2 path \<noteq> None \<or> (\<exists>r \<in> set (existingFiles expectedFiles resultFiles).
                  absolutePath r = path \<and> reported expectedFiles (movedFiles expectedFiles resultFiles) r))"
      using d'(2) by blast
    then show "(d' path \<noteq> None) =
        ((\<exists>f \<in> set (fixedFiles expectedFiles resultFiles). absolutePath f = path) \<or>
         (\<exists>f \<in> set (newFiles expectedFiles resultFiles). absolutePath f = path) \<or>
         (\<exists>r \<in> set (existingFiles expectedFiles resultFiles).
             absolutePath r = path \<and> reported expectedFiles (movedFiles expectedFiles resultFiles) r))"
      unfolding d2 d1 by blast
  qed
  then show ?thesis using dd by blast
qed

lemma exact_match_filters:
  "unchangedExpectedIssues expectedIssues resultIssues =
      filter (\<lambda>e. \<exists>r \<in> set resultIssues. sameIssue r e) expectedIssues \<and>
   unchangedResultIssues expectedIssues resultIssues =
      filter (\<lambda>r. \<exists>e \<in> set expectedIssues. sameIssue e r) resultIssues \<and>
   fixedOrMovedIssues expectedIssues resultIssues =
      filter (\<lambda>e. \<not> (\<exists>r \<in> set resultIssues. sameIssue r e)) expectedIssues \<and>
   newOrMovedIssues expectedIssues resultIssues =
      filter (\<lambda>r. \<not> (\<exists>e \<in> set expectedIssues. sameIssue e r)) resultIssues"
  by (auto simp: unchangedExpectedIssues_def unchangedResultIssues_def fixedOrMovedIssues_def
        newOrMovedIssues_def truthy_find intro!: filter_cong)

subsection \<open>Fixed issues\<close>

lemma issueStep_keeps:
  assumes "issueStep x (n, m, f) = Inr (n1, m1, f1)"
  shows "set n1 \<subseteq> set n \<and> set f \<subseteq> set f1 \<and>
         (filter (\<lambda>r. issue_hash r = issue_hash x) n = [] \<longrightarrow> f1 = f @ [x])"
  using assms unfolding issueStep_cases
  by (auto simp: Let_def split: if_splits dest: set_remove1_subset[THEN subsetD])

lemma fixed_in_loop:
  assumes "forEachFixedOrMovedIssue es (n, m, f) = Inr (n', m', f')"
      and "e \<in> set es \<or> e \<in> set f"
      and "\<forall>r \<in> set n. issue_hash r \<noteq> issue_hash e"
  shows "e \<in> set f'"
  using assms
proof (induction es arbitrary: n m f)
  case Nil
  then show ?case by simp
next
  case (Cons x es)
  obtain n1 m1 f1 where s1: "issueStep x (n, m, f) = Inr (n1, m1, f1)"
    using Cons.prems(1) by (auto split: sum.splits)
  note k = issueStep_keeps[OF s1]
  have run: "forEachFixedOrMovedIssue es (n1, m1, f1) = Inr (n', m', f')"
    using Cons.prems(1) s1 by simp
  have pool: "\<forall>r \<in> set n1. issue_hash r \<noteq> issue_hash e" using k Cons.prems(3) by blast
  have "e \<in> set es \<or> e \<in> set f1"
  proof (cases "e = x")
    case True
    have "filter (\<lambda>r. issue_hash r = issue_hash x) n = []"
      using Cons.prems(3) True by (auto simp: filter_empty_conv)
    then show ?thesis using k True by simp
  next
    case False
    then show ?thesis using Cons.prems(2) k by auto
  qed
  then show ?case using Cons.IH[OF run _ pool] by simp
qed

subsection \<open>A snapshot against itself\<close>

lemma find_self:
  "distinct (map f xs) \<Longrightarrow> x \<in> set xs \<Longrightarrow> find (\<lambda>y. f y = f x) xs = Some x"
  by (induction xs) (auto simp: rev_image_eqI)

lemma matchIssues_same: "matchIssues is is = Inr ([], [], [])"
proof -
  have "fixedOrMovedIssues is is = []"
    by (auto simp: fixedOrMovedIssues_def unchangedExpectedIssues_def truthy_find sameIssue_def filter_empty_conv)
  moreover have "newOrMovedIssues is is = []"
    by (auto simp: newOrMovedIssues_def unchangedResultIssues_def truthy_find sameIssue_def filter_empty_conv)
  ultimately show ?thesis by (simp add: matchIssues_def)
qed

lemma diffIssues_same: "diffIssues is is = Inr None"
  using diffIssues_cases[OF matchIssues_same] by simp

lemma forEachExisting_same:
  assumes "distinct (map absolutePath s)" "set rs \<subseteq> set s"
  shows "forEachExisting s [] rs d = Inr d"
  using assms(2)
proof (induction rs)
  case Nil
  then show ?case by simp
next
  case (Cons r rs)
  then have "r \<in> set s" by simp
  then have "expectedFileOf s [] r = Some r"
    using find_self[OF assms(1)] by (simp add: expectedFileOf_def getFile_def)
  then have "existingStep s [] r d = Inr d"
    by (simp add: existingStep_def diffIssues_same)
  then show ?case using Cons by simp
qed

subsection \<open>The move detection\<close>

declare forEachFixedOrMoved.simps [simp del]

lemma update_fresh: "k \<notin> fst ` set al \<Longrightarrow> AList.update k v al = al @ [(k, v)]"
  by (induction al) auto

lemma mset_drop_nth: "k < length xs \<Longrightarrow> mset (take k xs @ drop (Suc k) xs) + {#xs ! k#} = mset xs"
proof -
  assume "k < length xs"
  then have "xs = take k xs @ xs ! k # drop (Suc k) xs" by (rule id_take_nth_drop)
  then have "mset xs = mset (take k xs @ xs ! k # drop (Suc k) xs)" by simp
  then show ?thesis by simp
qed

lemma moveStep_inv:
  assumes inv: "moveInv fom0 nom0 st" and d: "distinct nom0" and k: "k < length (fst st)"
  shows "moveInv fom0 nom0 (moveStep k st)"
proof -
  obtain fom nom mv where st: "st = (fom, nom, mv)" by (cases st) auto
  let ?ps = "filter (\<lambda>n. file_hash n = file_hash (fom ! k)) nom"
  show ?thesis
  proof (cases "?ps = []")
    case True
    then show ?thesis using inv by (simp add: st moveStep_def)
  next
    case False
    let ?moved = "hd ?ps"
    have hm: "?moved \<in> set ?ps" using False by (rule hd_in_set)
    have mem: "?moved \<in> set nom" and mh: "file_hash ?moved = file_hash (fom ! k)"
      using hm[unfolded set_filter] by blast+
    have i1: "mset fom + mset (map snd mv) = mset fom0"
      and i2: "mset nom + mset (map fst mv) = mset nom0"
      and i3: "\<forall>(r, e) \<in> set mv. file_hash r = file_hash e"
      using inv by (simp_all add: st moveInv_def)
    have "distinct (nom @ map fst mv)"
      using d i2 by (metis mset_append mset_eq_imp_distinct_iff)
    then have fresh: "?moved \<notin> fst ` set mv" using mem by auto
    have kl: "k < length fom" using k st by simp
    have step: "moveStep k st =
        (take k fom @ drop (Suc k) fom, remove1 ?moved nom, mv @ [(?moved, fom ! k)])"
      using False by (simp add: st moveStep_def Let_def splice1_nat[OF kl] splice1_indexOf[OF mem]
          update_fresh[OF fresh])
    have a: "mset (take k fom @ drop (Suc k) fom) + mset (map snd (mv @ [(?moved, fom ! k)])) = mset fom0"
    proof -
      have "mset (take k fom @ drop (Suc k) fom) + mset (map snd (mv @ [(?moved, fom ! k)]))
            = (mset (take k fom @ drop (Suc k) fom) + {#fom ! k#}) + mset (map snd mv)"
        by simp
      also have "\<dots> = mset fom + mset (map snd mv)" by (simp only: mset_drop_nth[OF kl])
      also have "\<dots> = mset fom0" by (rule i1)
      finally show ?thesis .
    qed
    have b: "mset (remove1 ?moved nom) + mset (map fst (mv @ [(?moved, fom ! k)])) = mset nom0"
    proof -
      have r: "mset (remove1 ?moved nom) + {#?moved#} = mset nom" using mem by simp
      have "mset (remove1 ?moved nom) + mset (map fst (mv @ [(?moved, fom ! k)]))
            = (mset (remove1 ?moved nom) + {#?moved#}) + mset (map fst mv)"
        by simp
      also have "\<dots> = mset nom + mset (map fst mv)" by (simp only: r)
      also have "\<dots> = mset nom0" by (rule i2)
      finally show ?thesis .
    qed
    show ?thesis unfolding step moveInv_def using a b i3 mh by simp
  qed
qed

lemma forEachFixedOrMoved_inv:
  "moveInv fom0 nom0 st \<Longrightarrow> distinct nom0 \<Longrightarrow> moveInv fom0 nom0 (forEachFixedOrMoved k len st)"
proof (induction k len st rule: forEachFixedOrMoved.induct)
  case (1 k len st)
  show ?case
  proof (cases "k < len")
    case True
    let ?st' = "if k < length (fst st) then moveStep k st else st"
    have "moveInv fom0 nom0 ?st'" using "1.prems" moveStep_inv by simp
    then have "moveInv fom0 nom0 (forEachFixedOrMoved (Suc k) len ?st')"
      using "1.IH"[OF True] "1.prems"(2) by simp
    then show ?thesis using True by (subst forEachFixedOrMoved.simps) simp
  next
    case False
    then show ?thesis using "1.prems"(1) by (subst forEachFixedOrMoved.simps) simp
  qed
qed

lemma detectMoves_inv:
  assumes "distinct (map absolutePath resultFiles)"
  shows "moveInv (fixedOrMovedFiles expectedFiles resultFiles) (newOrMovedFiles expectedFiles resultFiles)
           (fixedFiles expectedFiles resultFiles, newFiles expectedFiles resultFiles,
            movedFiles expectedFiles resultFiles)"
proof -
  have "distinct resultFiles" using assms by (simp add: distinct_map)
  then have d: "distinct (newOrMovedFiles expectedFiles resultFiles)"
    by (simp add: newOrMovedFiles_def)
  have "moveInv (fixedOrMovedFiles expectedFiles resultFiles) (newOrMovedFiles expectedFiles resultFiles)
          (fixedOrMovedFiles expectedFiles resultFiles, newOrMovedFiles expectedFiles resultFiles, [])"
    by (simp add: moveInv_def)
  from forEachFixedOrMoved_inv[OF this d]
  show ?thesis by (simp add: detectMoves_def fixedFiles_def newFiles_def movedFiles_def Let_def)
qed

subsection \<open>Partition of files and issues\<close>

lemma exactlyOne4:
  "exactlyOne [a, b, c, d] =
     ((a \<and> \<not> b \<and> \<not> c \<and> \<not> d) \<or> (\<not> a \<and> b \<and> \<not> c \<and> \<not> d) \<or>
      (\<not> a \<and> \<not> b \<and> c \<and> \<not> d) \<or> (\<not> a \<and> \<not> b \<and> \<not> c \<and> d))"
  by (auto simp: exactlyOne_def)

lemma same_path_same_file:
  "distinct (map absolutePath fs) \<Longrightarrow> a \<in> set fs \<Longrightarrow> b \<in> set fs \<Longrightarrow>
   absolutePath a = absolutePath b \<Longrightarrow> a = b"
  by (auto simp: distinct_map dest: inj_onD)

lemma split_pool:
  assumes "mset a + mset b = mset c" "distinct c"
  shows "set c = set a \<union> set b \<and> set a \<inter> set b = {}"
proof -
  have m: "mset (a @ b) = mset c" using assms(1) by simp
  then have "distinct (a @ b)" using assms(2) by (metis mset_eq_imp_distinct_iff)
  moreover have "set (a @ b) = set c" using m by (rule mset_eq_setD)
  ultimately show ?thesis by auto
qed

lemma unchanged_iff:
  "(r \<in> set (unchangedResultFiles expectedFiles resultFiles)) =
     (r \<in> set resultFiles \<and>
      (\<exists>e \<in> set expectedFiles. absolutePath e = absolutePath r \<and> file_hash e = file_hash r))"
  by (simp add: unchangedResultFiles_def truthy_find)

lemma changed_iff:
  "(r \<in> set (changedResultFiles expectedFiles resultFiles)) =
     (r \<in> set resultFiles \<and>
      (\<exists>e \<in> set expectedFiles. absolutePath e = absolutePath r \<and> file_hash e \<noteq> file_hash r))"
  by (simp add: changedResultFiles_def truthy_find)

lemma result_files_partition:
  assumes de: "distinct (map absolutePath expectedFiles)"
      and dr: "distinct (map absolutePath resultFiles)"
      and r: "r \<in> set resultFiles"
  shows "exactlyOne [r \<in> set (unchangedResultFiles expectedFiles resultFiles),
                     r \<in> set (changedResultFiles expectedFiles resultFiles),
                     r \<in> fst ` set (movedFiles expectedFiles resultFiles),
                     r \<in> set (newFiles expectedFiles resultFiles)]"
proof -
  have "distinct resultFiles" using dr by (simp add: distinct_map)
  then have dn: "distinct (newOrMovedFiles expectedFiles resultFiles)"
    by (simp add: newOrMovedFiles_def)
  have "mset (newFiles expectedFiles resultFiles) + mset (map fst (movedFiles expectedFiles resultFiles))
          = mset (newOrMovedFiles expectedFiles resultFiles)"
    using detectMoves_inv[OF dr, of expectedFiles] by (simp add: moveInv_def)
  from split_pool[OF this dn]
  have pool: "set (newOrMovedFiles expectedFiles resultFiles) =
                set (newFiles expectedFiles resultFiles) \<union> fst ` set (movedFiles expectedFiles resultFiles)"
    and disj: "set (newFiles expectedFiles resultFiles) \<inter> fst ` set (movedFiles expectedFiles resultFiles) = {}"
    by simp_all
  have u: "(r \<in> set (unchangedResultFiles expectedFiles resultFiles)) =
             (\<exists>e \<in> set expectedFiles. absolutePath e = absolutePath r \<and> file_hash e = file_hash r)"
    using r by (simp add: unchangedResultFiles_def truthy_find)
  have c: "(r \<in> set (changedResultFiles expectedFiles resultFiles)) =
             (\<exists>e \<in> set expectedFiles. absolutePath e = absolutePath r \<and> file_hash e \<noteq> file_hash r)"
    using r by (simp add: changedResultFiles_def truthy_find)
  have n: "(r \<in> set (newOrMovedFiles expectedFiles resultFiles)) =
             (\<not> (\<exists>e \<in> set expectedFiles. absolutePath e = absolutePath r))"
    using r by (simp add: newOrMovedFiles_def truthy_find)
  have excl: "\<not> (r \<in> set (unchangedResultFiles expectedFiles resultFiles) \<and>
                  r \<in> set (changedResultFiles expectedFiles resultFiles))"
    unfolding u c using same_path_same_file[OF de] by metis
  show ?thesis
    unfolding exactlyOne4 using u c n pool disj excl by blast
qed

lemma expected_files_partition:
  assumes de: "distinct (map absolutePath expectedFiles)"
      and dr: "distinct (map absolutePath resultFiles)"
      and e: "e \<in> set expectedFiles"
  shows "exactlyOne [\<exists>r \<in> set (unchangedResultFiles expectedFiles resultFiles). absolutePath r = absolutePath e,
                     \<exists>r \<in> set (changedResultFiles expectedFiles resultFiles). absolutePath r = absolutePath e,
                     e \<in> snd ` set (movedFiles expectedFiles resultFiles),
                     e \<in> set (fixedFiles expectedFiles resultFiles)]"
proof -
  have "distinct expectedFiles" using de by (simp add: distinct_map)
  then have df: "distinct (fixedOrMovedFiles expectedFiles resultFiles)"
    by (simp add: fixedOrMovedFiles_def)
  have "mset (fixedFiles expectedFiles resultFiles) + mset (map snd (movedFiles expectedFiles resultFiles))
          = mset (fixedOrMovedFiles expectedFiles resultFiles)"
    using detectMoves_inv[OF dr, of expectedFiles] by (simp add: moveInv_def)
  from split_pool[OF this df]
  have pool: "set (fixedOrMovedFiles expectedFiles resultFiles) =
                set (fixedFiles expectedFiles resultFiles) \<union> snd ` set (movedFiles expectedFiles resultFiles)"
    and disj: "set (fixedFiles expectedFiles resultFiles) \<inter> snd ` set (movedFiles expectedFiles resultFiles) = {}"
    by simp_all
  have f: "(e \<in> set (fixedOrMovedFiles expectedFiles resultFiles)) =
             (\<not> (\<exists>r \<in> set resultFiles. absolutePath r = absolutePath e))"
    using e by (simp add: fixedOrMovedFiles_def truthy_find)
  show ?thesis
  proof (cases "\<exists>r \<in> set resultFiles. absolutePath r = absolutePath e")
    case False
    then have "\<not> (\<exists>r \<in> set (unchangedResultFiles expectedFiles resultFiles). absolutePath r = absolutePath e)"
      and "\<not> (\<exists>r \<in> set (changedResultFiles expectedFiles resultFiles). absolutePath r = absolutePath e)"
      by (auto simp: unchangedResultFiles_def changedResultFiles_def)
    then show ?thesis unfolding exactlyOne4 using f False pool disj by blast
  next
    case True
    then obtain r where r: "r \<in> set resultFiles" "absolutePath r = absolutePath e" by blast
    have other: "\<And>e'. e' \<in> set expectedFiles \<Longrightarrow> absolutePath e' = absolutePath r \<Longrightarrow> e' = e"
      using same_path_same_file[OF de _ e] r(2) by simp
    have u: "(\<exists>r' \<in> set (unchangedResultFiles expectedFiles resultFiles). absolutePath r' = absolutePath e)
               = (file_hash e = file_hash r)"
    proof
      assume "\<exists>r' \<in> set (unchangedResultFiles expectedFiles resultFiles). absolutePath r' = absolutePath e"
      then obtain r' where r': "r' \<in> set resultFiles" "absolutePath r' = absolutePath e"
          "\<exists>e' \<in> set expectedFiles. absolutePath e' = absolutePath r' \<and> file_hash e' = file_hash r'"
        by (meson unchanged_iff)
      have "r' = r" using same_path_same_file[OF dr r'(1) r(1)] r'(2) r(2) by simp
      then show "file_hash e = file_hash r" using r'(3) other by auto
    next
      assume "file_hash e = file_hash r"
      then have "r \<in> set (unchangedResultFiles expectedFiles resultFiles)"
        using r e by (auto simp: unchangedResultFiles_def truthy_find)
      then show "\<exists>r' \<in> set (unchangedResultFiles expectedFiles resultFiles). absolutePath r' = absolutePath e"
        using r(2) by blast
    qed
    have c: "(\<exists>r' \<in> set (changedResultFiles expectedFiles resultFiles). absolutePath r' = absolutePath e)
               = (file_hash e \<noteq> file_hash r)"
    proof
      assume "\<exists>r' \<in> set (changedResultFiles expectedFiles resultFiles). absolutePath r' = absolutePath e"
      then obtain r' where r': "r' \<in> set resultFiles" "absolutePath r' = absolutePath e"
          "\<exists>e' \<in> set expectedFiles. absolutePath e' = absolutePath r' \<and> file_hash e' \<noteq> file_hash r'"
        by (meson changed_iff)
      have "r' = r" using same_path_same_file[OF dr r'(1) r(1)] r'(2) r(2) by simp
      then show "file_hash e \<noteq> file_hash r" using r'(3) other by auto
    next
      assume "file_hash e \<noteq> file_hash r"
      then have "r \<in> set (changedResultFiles expectedFiles resultFiles)"
        using r e by (auto simp: changedResultFiles_def truthy_find)
      then show "\<exists>r' \<in> set (changedResultFiles expectedFiles resultFiles). absolutePath r' = absolutePath e"
        using r(2) by blast
    qed
    have "e \<notin> set (fixedOrMovedFiles expectedFiles resultFiles)" using f True by simp
    then show ?thesis unfolding exactlyOne4 u c using pool by blast
  qed
qed

lemma issues_partition:
  "\<exists>new mv fx mf. matchIssues expectedIssues resultIssues = Inr (new, mv, fx) \<and>
      mset resultIssues = mset (unchangedResultIssues expectedIssues resultIssues) + mset mv + mset new \<and>
      mset expectedIssues = mset (unchangedExpectedIssues expectedIssues resultIssues) + mset fx + mset mf \<and>
      map issue_hash mf = map issue_hash mv"
proof -
  obtain new mv fx mf where m: "matchIssues expectedIssues resultIssues = Inr (new, mv, fx)"
      "mset (fixedOrMovedIssues expectedIssues resultIssues) = mset fx + mset mf"
      "map issue_hash mf = map issue_hash mv"
      "mset (newOrMovedIssues expectedIssues resultIssues) = mset new + mset mv"
    using matchIssues_total by blast
  have r: "mset resultIssues = mset (unchangedResultIssues expectedIssues resultIssues) +
                              mset (newOrMovedIssues expectedIssues resultIssues)"
    by (simp add: exact_match_filters)
  have e: "mset expectedIssues = mset (unchangedExpectedIssues expectedIssues resultIssues) +
                              mset (fixedOrMovedIssues expectedIssues resultIssues)"
    by (simp add: exact_match_filters)
  show ?thesis
    apply (rule exI[of _ new], rule exI[of _ mv], rule exI[of _ fx], rule exI[of _ mf])
    using m r e by (simp add: add.assoc add.commute)
qed

lemma existing_subset: 
  assumes "distinct (map absolutePath resultFiles)"
  shows "set (existingFiles expectedFiles resultFiles) \<subseteq> set resultFiles"
proof -
  have "mset (newFiles expectedFiles resultFiles) + mset (map fst (movedFiles expectedFiles resultFiles))
          = mset (newOrMovedFiles expectedFiles resultFiles)"
    using detectMoves_inv[OF assms, of expectedFiles] by (simp add: moveInv_def)
  then have "set (map fst (movedFiles expectedFiles resultFiles)) \<subseteq> set (newOrMovedFiles expectedFiles resultFiles)"
    by (metis mset_subset_eq_add_right set_mset_mono set_mset_mset)
  then show ?thesis
    by (auto simp: existingFiles_def unchanged_iff changed_iff newOrMovedFiles_def)
qed

lemma existing_entry_gate:
  assumes de: "distinct (map absolutePath expectedFiles)"
      and dr: "distinct (map absolutePath resultFiles)"
      and r: "r \<in> set (existingFiles expectedFiles resultFiles)"
      and d: "differ expectedFiles resultFiles = Inr diff"
  shows "(diff (absolutePath r) \<noteq> None) = reported expectedFiles (movedFiles expectedFiles resultFiles) r"
proof -
  have rr: "r \<in> set resultFiles" using existing_subset[OF dr] r by blast
  have one: "exactlyOne [r \<in> set (unchangedResultFiles expectedFiles resultFiles),
                     r \<in> set (changedResultFiles expectedFiles resultFiles),
                     r \<in> fst ` set (movedFiles expectedFiles resultFiles),
                     r \<in> set (newFiles expectedFiles resultFiles)]"
    by (rule result_files_partition[OF de dr rr])
  have notnew: "r \<notin> set (newFiles expectedFiles resultFiles)"
    using one r unfolding exactlyOne4 existingFiles_def by auto
  have "mset (newFiles expectedFiles resultFiles) + mset (map fst (movedFiles expectedFiles resultFiles))
          = mset (newOrMovedFiles expectedFiles resultFiles)"
    using detectMoves_inv[OF dr, of expectedFiles] by (simp add: moveInv_def)
  then have "set (newFiles expectedFiles resultFiles) \<subseteq> set (newOrMovedFiles expectedFiles resultFiles)"
    by (metis mset_subset_eq_add_left set_mset_mono set_mset_mset)
  then have newsub: "set (newFiles expectedFiles resultFiles) \<subseteq> set resultFiles"
    by (auto simp: newOrMovedFiles_def)
  have n: "\<not> (\<exists>f \<in> set (newFiles expectedFiles resultFiles). absolutePath f = absolutePath r)"
    using same_path_same_file[OF dr _ rr] newsub notnew by blast
  have "mset (fixedFiles expectedFiles resultFiles) + mset (map snd (movedFiles expectedFiles resultFiles))
          = mset (fixedOrMovedFiles expectedFiles resultFiles)"
    using detectMoves_inv[OF dr, of expectedFiles] by (simp add: moveInv_def)
  then have "set (fixedFiles expectedFiles resultFiles) \<subseteq> set (fixedOrMovedFiles expectedFiles resultFiles)"
    by (metis mset_subset_eq_add_left set_mset_mono set_mset_mset)
  then have f: "\<not> (\<exists>f \<in> set (fixedFiles expectedFiles resultFiles). absolutePath f = absolutePath r)"
    using rr by (fastforce simp: fixedOrMovedFiles_def truthy_find)
  have x: "(\<exists>r' \<in> set (existingFiles expectedFiles resultFiles). absolutePath r' = absolutePath r \<and>
              reported expectedFiles (movedFiles expectedFiles resultFiles) r')
           = reported expectedFiles (movedFiles expectedFiles resultFiles) r"
    using same_path_same_file[OF dr _ rr] existing_subset[OF dr] r by blast
  from differ_cases[of expectedFiles resultFiles] d
  have "(diff (absolutePath r) \<noteq> None) =
        ((\<exists>f \<in> set (fixedFiles expectedFiles resultFiles). absolutePath f = absolutePath r) \<or>
         (\<exists>f \<in> set (newFiles expectedFiles resultFiles). absolutePath f = absolutePath r) \<or>
         (\<exists>r' \<in> set (existingFiles expectedFiles resultFiles).
             absolutePath r' = absolutePath r \<and> reported expectedFiles (movedFiles expectedFiles resultFiles) r'))"
    by auto
  then show ?thesis using f n x by blast
qed

subsection \<open>The store: what the differ leaves unchanged\<close>

declare forEachAt.simps [simp del]

lemma preserved_refl: "preserved s s"
  by (simp add: preserved_def)

lemma preserved_allocate:
  "preserved s0 s \<Longrightarrow> preserved s0 (snd (allocate x s)) \<and> length s0 \<le> fst (allocate x s)"
  by (simp add: preserved_def allocate_def)

lemma preserved_assign: "preserved s0 s \<Longrightarrow> length s0 \<le> a \<Longrightarrow> preserved s0 (assign a x s)"
  by (simp add: preserved_def assign_def)

lemma preserved_read:
  "preserved s0 s \<Longrightarrow> a < length s0 \<Longrightarrow> fileArray s a = fileArray s0 a \<and> issueArray s a = issueArray s0 a"
proof -
  assume p: "preserved s0 s" and a: "a < length s0"
  have "s ! a = take (length s0) s ! a" using a by simp
  then have "s ! a = s0 ! a" using p by (simp add: preserved_def)
  then show ?thesis using p a by (simp add: fileArray_def issueArray_def preserved_def)
qed

lemma forEachAt_preserved:
  "(\<And>x k acc s. preserved s0 s \<Longrightarrow> preserved s0 (snd (f x k acc s))) \<Longrightarrow>
   preserved s0 s \<Longrightarrow> preserved s0 (snd (forEachAt rd a f k len acc s))"
proof (induction rd a f k len acc s rule: forEachAt.induct)
  case (1 rd a f k len acc s)
  note cb = "1.prems"(1) and p = "1.prems"(2)
  show ?case
  proof (cases "k < len")
    case False
    then show ?thesis using p by (subst forEachAt.simps) simp
  next
    case True
    show ?thesis
    proof (cases "k < length (rd s a)")
      case False
      then show ?thesis using True "1.IH"(2)[OF True False cb p] by (subst forEachAt.simps) simp
    next
      case inb: True
      obtain r s' where step: "f (rd s a ! k) k acc s = (r, s')" by (cases "f (rd s a ! k) k acc s")
      have p': "preserved s0 s'" using cb[OF p, of "rd s a ! k" k acc] step by simp
      show ?thesis
      proof (cases r)
        case (Inl err)
        then show ?thesis using True inb step p' by (subst forEachAt.simps) simp
      next
        case (Inr acc')
        have "preserved s0 (snd (forEachAt rd a f (Suc k) len acc' s'))"
          using "1.IH"(1)[OF True inb step[symmetric] Inr cb p'] by simp
        then show ?thesis using True inb step Inr by (subst forEachAt.simps) simp
      qed
    qed
  qed
qed

lemma forEachArray_preserved:
  "(\<And>x k acc s. preserved s0 s \<Longrightarrow> preserved s0 (snd (f x k acc s))) \<Longrightarrow>
   preserved s0 s \<Longrightarrow> preserved s0 (snd (forEachArray rd a f acc s))"
  unfolding forEachArray_def by (rule forEachAt_preserved)

lemma moveStepS_preserved:
  assumes "length s0 \<le> fom" "length s0 \<le> nom" "preserved s0 s"
  shows "preserved s0 (snd (moveStepS fom nom f k mv s))"
proof -
  let ?x = "FileArray (filter (\<lambda>n. obj_hash n = obj_hash f) (fileArray s nom))"
  have p1: "preserved s0 (snd (allocate ?x s))" using preserved_allocate[OF assms(3)] by simp
  show ?thesis
    unfolding moveStepS_def Let_def
    using p1 assms(1,2) by (simp add: split_beta preserved_assign)
qed

lemma issueStepS_preserved:
  assumes "length s0 \<le> nom" "length s0 \<le> mi" "length s0 \<le> fi" "preserved s0 s"
  shows "preserved s0 (snd (issueStepS nom mi fi e k u s))"
proof -
  let ?x = "IssueArray (filter (\<lambda>n. issue_hash n = issue_hash e) (issueArray s nom))"
  have p1: "preserved s0 (snd (allocate ?x s))" and a1: "length s0 \<le> fst (allocate ?x s)"
    using preserved_allocate[OF assms(4)] by simp_all
  show ?thesis
    unfolding issueStepS_def Let_def
    using p1 a1 assms(1,2,3)
    by (auto simp: split_beta preserved_assign split: sum.splits option.splits prod.splits)
qed

lemma allocate_step:
  "preserved s0 s \<Longrightarrow> allocate x s = (a, s') \<Longrightarrow> preserved s0 s' \<and> length s0 \<le> a"
  using preserved_allocate[of s0 s x] by simp

lemma filterIssuesS_preserved:
  assumes "preserved s0 s" "filterIssuesS e r s = ((ri, ue, nom, fom, mi, fi), s')"
  shows "preserved s0 s' \<and> length s0 \<le> nom \<and> length s0 \<le> mi \<and> length s0 \<le> fi"
  using assms unfolding filterIssuesS_def Let_def
  by (auto split: prod.splits) (meson allocate_step)+

lemma diffIssuesS_snd:
  "snd (diffIssuesS e r s) =
     (case filterIssuesS e r s of
        ((ri, ue, nom, fom, mi, fi), s7) \<Rightarrow>
          snd (forEachArray issueArray fom (issueStepS nom mi fi) () s7))"
  unfolding diffIssuesS_def
  by (simp add: Let_def split: prod.splits sum.splits)

lemma diffIssuesS_preserved:
  assumes p: "preserved s0 s"
  shows "preserved s0 (snd (diffIssuesS e r s))"
proof -
  obtain ri ue nom fom mi fi s7 where f: "filterIssuesS e r s = ((ri, ue, nom, fom, mi, fi), s7)"
    by (metis prod.exhaust)
  note k = filterIssuesS_preserved[OF p f]
  have cb: "\<And>x k acc s. preserved s0 s \<Longrightarrow> preserved s0 (snd (issueStepS nom mi fi x k acc s))"
    using k by (simp add: issueStepS_preserved)
  have "preserved s0 (snd (forEachArray issueArray fom (issueStepS nom mi fi) () s7))"
  proof (rule forEachArray_preserved)
    show "\<And>x k acc s. preserved s0 s \<Longrightarrow> preserved s0 (snd (issueStepS nom mi fi x k acc s))"
      by (rule cb)
    show "preserved s0 s7" using k by simp
  qed
  then show ?thesis by (simp add: diffIssuesS_snd f)
qed

lemma existingStepS_snd:
  "snd (existingStepS expected mv f k d s) =
     (case (case map_of mv f of Some e \<Rightarrow> Some e | None \<Rightarrow> getFileS s expected (obj_absolutePath f)) of
        None \<Rightarrow> s
      | Some e \<Rightarrow> snd (diffIssuesS (obj_issues e) (obj_issues f) s))"
  by (simp add: existingStepS_def split: option.splits prod.splits sum.splits)

lemma existingStepS_preserved:
  "preserved s0 s \<Longrightarrow> preserved s0 (snd (existingStepS expected mv f k d s))"
  unfolding existingStepS_snd by (simp add: diffIssuesS_preserved split: option.splits)

lemma filterFilesS_preserved:
  assumes "preserved s0 s" "filterFilesS e r s = ((u, c, nom, fom), s')"
  shows "preserved s0 s' \<and> length s0 \<le> nom \<and> length s0 \<le> fom"
  using assms unfolding filterFilesS_def Let_def
  by (auto split: prod.splits) (meson allocate_step)+

lemma differS_snd:
  "snd (differS expected result s0) =
     (case filterFilesS expected result s0 of
        ((u, c, nom, fom), s1) \<Rightarrow>
          (case forEachArray fileArray fom (moveStepS fom nom) [] s1 of
             (Inl err, s2) \<Rightarrow> s2
           | (Inr mv, s2) \<Rightarrow>
               snd (forEachArray fileArray (fst (allocate (FileArray (fileArray s2 u @ fileArray s2 c @ map fst mv)) s2))
                      (existingStepS expected mv)
                      (fold (\<lambda>file diff. diff(obj_absolutePath file \<mapsto> newEntryS s2 file))
                         (fileArray s2 nom)
                         (fold (\<lambda>file diff. diff(obj_absolutePath file \<mapsto> fixedEntryS s2 file))
                            (fileArray s2 fom) Map.empty))
                      (snd (allocate (FileArray (fileArray s2 u @ fileArray s2 c @ map fst mv)) s2)))))"
  unfolding differS_def
  by (simp add: Let_def split_beta split: prod.splits sum.splits)

lemma differS_preserved: "preserved s0 (snd (differS expected result s0))"
proof -
  obtain u c nom fom s1 where f: "filterFilesS expected result s0 = ((u, c, nom, fom), s1)"
    by (metis prod.exhaust)
  note k = filterFilesS_preserved[OF preserved_refl f]
  obtain r s2 where l: "forEachArray fileArray fom (moveStepS fom nom) [] s1 = (r, s2)"
    by (metis prod.exhaust)
  have "preserved s0 (snd (forEachArray fileArray fom (moveStepS fom nom) [] s1))"
  proof (rule forEachArray_preserved)
    show "\<And>x k acc s. preserved s0 s \<Longrightarrow> preserved s0 (snd (moveStepS fom nom x k acc s))"
      using k by (simp add: moveStepS_preserved)
    show "preserved s0 s1" using k by simp
  qed
  then have p2: "preserved s0 s2" using l by simp
  show ?thesis
  proof (cases r)
    case (Inl err)
    then show ?thesis using p2 by (simp add: differS_snd f l)
  next
    case (Inr mv)
    let ?x = "FileArray (fileArray s2 u @ fileArray s2 c @ map fst mv)"
    have p3: "preserved s0 (snd (allocate ?x s2))" using preserved_allocate[OF p2] by simp
    have "\<And>a d. preserved s0 (snd (forEachArray fileArray a (existingStepS expected mv) d (snd (allocate ?x s2))))"
    proof (rule forEachArray_preserved)
      show "\<And>x k acc s. preserved s0 s \<Longrightarrow> preserved s0 (snd (existingStepS expected mv x k acc s))"
        by (rule existingStepS_preserved)
      show "preserved s0 (snd (allocate ?x s2))" by (rule p3)
    qed
    then show ?thesis using Inr by (simp add: differS_snd f l)
  qed
qed

lemma snapshotOf_preserved:
  assumes p: "preserved s0 s" and w: "snapshotIn s0 a"
  shows "snapshotOf s a = snapshotOf s0 a"
proof -
  have a: "a < length s0" using w by (simp add: snapshotIn_def)
  have fa: "fileArray s a = fileArray s0 a" using preserved_read[OF p a] by simp
  have "\<And>f. f \<in> set (fileArray s0 a) \<Longrightarrow> fileOf s f = fileOf s0 f"
  proof -
    fix f assume "f \<in> set (fileArray s0 a)"
    then have "obj_issues f < length s0" using w by (simp add: snapshotIn_def list_all_iff)
    then show "fileOf s f = fileOf s0 f" using preserved_read[OF p] by (simp add: fileOf_def)
  qed
  then show ?thesis by (simp add: snapshotOf_def fa)
qed

subsection \<open>The store: the issue matching computes what the pure embedding computes\<close>

lemma issueArray_append:
  "issueArray (s @ t) b = (if b < length s then issueArray s b else issueArray t (b - length s))"
  by (auto simp: issueArray_def nth_append)

lemma fileArray_append:
  "fileArray (s @ t) b = (if b < length s then fileArray s b else fileArray t (b - length s))"
  by (auto simp: fileArray_def nth_append)

lemma issueArray_Cons:
  "issueArray (x # t) b =
     (if b = 0 then (case x of IssueArray is \<Rightarrow> is | FileArray fs \<Rightarrow> []) else issueArray t (b - 1))"
  by (cases b) (auto simp: issueArray_def)

lemma issueArray_Nil: "issueArray [] b = []"
  by (simp add: issueArray_def)

lemma filterIssuesS_eq:
  assumes "ea < length s" "ra < length s"
  shows "filterIssuesS ea ra s =
     ((length s, length s + 1, length s + 3, length s + 4, length s + 5, length s + 6),
      s @ [IssueArray (issueArray s ra),
           IssueArray (unchangedExpectedIssues (issueArray s ea) (issueArray s ra)),
           IssueArray (unchangedResultIssues (issueArray s ea) (issueArray s ra)),
           IssueArray (newOrMovedIssues (issueArray s ea) (issueArray s ra)),
           IssueArray (fixedOrMovedIssues (issueArray s ea) (issueArray s ra)),
           IssueArray [], IssueArray []])"
  using assms
  by (simp add: filterIssuesS_def allocate_def Let_def issueArray_append issueArray_Cons issueArray_Nil
      unchangedExpectedIssues_def unchangedResultIssues_def newOrMovedIssues_def fixedOrMovedIssues_def)


lemma issueArray_assign:
  "issueArray (assign a x s) b =
     (if b = a \<and> a < length s then (case x of IssueArray is \<Rightarrow> is | FileArray fs \<Rightarrow> [])
      else issueArray s b)"
  by (auto simp: issueArray_def assign_def)

lemma fileArray_assign:
  "fileArray (assign a x s) b =
     (if b = a \<and> a < length s then (case x of FileArray fs \<Rightarrow> fs | IssueArray is \<Rightarrow> [])
      else fileArray s b)"
  by (auto simp: fileArray_def assign_def)

lemma length_assign: "length (assign a x s) = length s"
  by (simp add: assign_def)

lemma nth_assign: "assign a x s ! b = (if b = a \<and> a < length s then x else s ! b)"
  by (cases "a < length s") (auto simp: assign_def list_update_beyond)

lemma issueStepS_refines:
  assumes "nom < length s" "mi < length s" "fi < length s" "nom \<noteq> mi" "nom \<noteq> fi" "mi \<noteq> fi"
  shows "\<exists>s'. issueStepS nom mi fi e k u s = (Inr (), s') \<and>
              issueStep e (issueArray s nom, issueArray s mi, issueArray s fi)
                = Inr (issueArray s' nom, issueArray s' mi, issueArray s' fi) \<and>
              sameExcept {nom, mi, fi} s s'"
proof (cases "filter (\<lambda>x. issue_hash x = issue_hash e) (issueArray s nom)")
  case Nil
  then show ?thesis using assms
    by (simp add: issueStepS_def issueStep_def allocate_def Let_def issueArray_append issueArray_Cons
        issueArray_Nil issueArray_assign length_assign nth_assign sameExcept_def nth_append)
next
  case (Cons p ps)
  then show ?thesis using assms
    by (simp add: issueStepS_def issueStep_def allocate_def Let_def issueArray_append issueArray_Cons
        issueArray_Nil issueArray_assign length_assign nth_assign sameExcept_def nth_append
        shift_def searchBest_nearestLine)
qed


lemma sameExcept_refl: "sameExcept A s s"
  by (simp add: sameExcept_def)

lemma sameExcept_trans: "sameExcept A s s1 \<Longrightarrow> sameExcept A s1 s2 \<Longrightarrow> sameExcept A s s2"
  by (auto simp: sameExcept_def)

lemma sameExcept_read:
  "sameExcept A s s' \<Longrightarrow> b < length s \<Longrightarrow> b \<notin> A \<Longrightarrow>
   issueArray s' b = issueArray s b \<and> fileArray s' b = fileArray s b"
  by (auto simp: sameExcept_def issueArray_def fileArray_def)

lemma issueLoop_refines:
  assumes a: "nom < length s" "mi < length s" "fi < length s" "fom < length s"
      and d: "nom \<noteq> mi" "nom \<noteq> fi" "mi \<noteq> fi" "fom \<notin> {nom, mi, fi}"
      and len: "len = length (issueArray s fom)"
  shows "\<exists>s'. forEachAt issueArray fom (issueStepS nom mi fi) k len () s = (Inr (), s') \<and>
              forEachFixedOrMovedIssue (drop k (issueArray s fom))
                  (issueArray s nom, issueArray s mi, issueArray s fi)
                = Inr (issueArray s' nom, issueArray s' mi, issueArray s' fi) \<and>
              sameExcept {nom, mi, fi} s s'"
  using a len
proof (induction "len - k" arbitrary: k s)
  case 0
  then have "\<not> k < len" by simp
  then show ?case using "0.prems"
    by (subst forEachAt.simps) (simp add: sameExcept_refl)
next
  case (Suc n)
  then have kl: "k < len" by simp
  then have inb: "k < length (issueArray s fom)" using Suc.prems by simp
  let ?e = "issueArray s fom ! k"
  from issueStepS_refines[OF Suc.prems(1,2,3) d(1,2,3), of ?e k "()"] obtain s1 where
    s1: "issueStepS nom mi fi ?e k () s = (Inr (), s1)"
        "issueStep ?e (issueArray s nom, issueArray s mi, issueArray s fi)
           = Inr (issueArray s1 nom, issueArray s1 mi, issueArray s1 fi)"
        "sameExcept {nom, mi, fi} s s1" by blast
  have l1: "length s \<le> length s1" using s1(3) by (simp add: sameExcept_def)
  have rd: "issueArray s1 fom = issueArray s fom"
    using sameExcept_read[OF s1(3) Suc.prems(4)] d(4) by simp
  have n: "n = len - Suc k" using Suc.hyps(2) by simp
  from Suc.hyps(1)[OF n, of s1] l1 Suc.prems rd obtain s' where
    s': "forEachAt issueArray fom (issueStepS nom mi fi) (Suc k) len () s1 = (Inr (), s')"
        "forEachFixedOrMovedIssue (drop (Suc k) (issueArray s1 fom))
                  (issueArray s1 nom, issueArray s1 mi, issueArray s1 fi)
                = Inr (issueArray s' nom, issueArray s' mi, issueArray s' fi)"
        "sameExcept {nom, mi, fi} s1 s'" by auto
  have dr: "drop k (issueArray s fom) = ?e # drop (Suc k) (issueArray s fom)"
    using inb by (simp add: Cons_nth_drop_Suc)
  have run: "forEachAt issueArray fom (issueStepS nom mi fi) k len () s = (Inr (), s')"
    using kl inb s1(1) s'(1) by (subst forEachAt.simps) simp
  have pure: "forEachFixedOrMovedIssue (drop k (issueArray s fom))
                  (issueArray s nom, issueArray s mi, issueArray s fi)
                = Inr (issueArray s' nom, issueArray s' mi, issueArray s' fi)"
    unfolding dr using s1(2) s'(2) rd by simp
  show ?case using run pure sameExcept_trans[OF s1(3) s'(3)] by blast
qed


lemma diffIssuesS_refines:
  assumes ea: "ea < length s" and ra: "ra < length s"
  shows "fst (diffIssuesS ea ra s) = diffIssues (issueArray s ea) (issueArray s ra)"
proof -
  let ?E = "issueArray s ea" and ?R = "issueArray s ra" and ?L = "length s"
  let ?s7 = "s @ [IssueArray ?R,
           IssueArray (unchangedExpectedIssues ?E ?R),
           IssueArray (unchangedResultIssues ?E ?R),
           IssueArray (newOrMovedIssues ?E ?R),
           IssueArray (fixedOrMovedIssues ?E ?R),
           IssueArray [], IssueArray []]"
  note f = filterIssuesS_eq[OF ea ra]
  have r7: "issueArray ?s7 (?L + 3) = newOrMovedIssues ?E ?R"
           "issueArray ?s7 (?L + 4) = fixedOrMovedIssues ?E ?R"
           "issueArray ?s7 (?L + 5) = []" "issueArray ?s7 (?L + 6) = []"
           "issueArray ?s7 ?L = ?R" "issueArray ?s7 (?L + 1) = unchangedExpectedIssues ?E ?R"
           "issueArray ?s7 ra = ?R"
    using ra by (simp_all add: issueArray_append issueArray_Cons)
  have "\<exists>s'. forEachAt issueArray (?L + 4) (issueStepS (?L + 3) (?L + 5) (?L + 6)) 0
                 (length (issueArray ?s7 (?L + 4))) () ?s7 = (Inr (), s') \<and>
              forEachFixedOrMovedIssue (drop 0 (issueArray ?s7 (?L + 4)))
                  (issueArray ?s7 (?L + 3), issueArray ?s7 (?L + 5), issueArray ?s7 (?L + 6))
                = Inr (issueArray s' (?L + 3), issueArray s' (?L + 5), issueArray s' (?L + 6)) \<and>
              sameExcept {?L + 3, ?L + 5, ?L + 6} ?s7 s'"
    by (rule issueLoop_refines) simp_all
  then obtain s8 where
    s8: "forEachArray issueArray (?L + 4) (issueStepS (?L + 3) (?L + 5) (?L + 6)) () ?s7 = (Inr (), s8)"
        "matchIssues ?E ?R = Inr (issueArray s8 (?L + 3), issueArray s8 (?L + 5), issueArray s8 (?L + 6))"
        "sameExcept {?L + 3, ?L + 5, ?L + 6} ?s7 s8"
    unfolding forEachArray_def matchIssues_def r7 by auto
  have r8: "issueArray s8 ra = ?R" "issueArray s8 ?L = ?R"
           "issueArray s8 (?L + 1) = unchangedExpectedIssues ?E ?R"
    using sameExcept_read[OF s8(3), of ra] sameExcept_read[OF s8(3), of ?L]
      sameExcept_read[OF s8(3), of "?L + 1"] r7 ra by simp_all
  have r8': "issueArray s8 (Suc ?L) = unchangedExpectedIssues ?E ?R" using r8(3) by simp
  show ?thesis
    unfolding diffIssuesS_def f diffIssues_def
    by (simp add: s8(1,2) r8 r8' Let_def split: sum.splits)
qed

subsection \<open>The store: the differ computes what the pure embedding computes\<close>

lemma fileArray_Cons:
  "fileArray (x # t) b =
     (if b = 0 then (case x of FileArray fs \<Rightarrow> fs | IssueArray is \<Rightarrow> []) else fileArray t (b - 1))"
  by (cases b) (auto simp: fileArray_def)

lemma fileArray_Nil: "fileArray [] b = []"
  by (simp add: fileArray_def)

lemma indexOf_map_inj:
  "inj_on g (insert x (set xs)) \<Longrightarrow> indexOf (map g xs) (g x) = indexOf xs x"
  by (induction xs) (auto simp: Let_def inj_on_def)

lemma splice1_map: "splice1 i (map g xs) = map g (splice1 i xs)"
  by (simp add: splice1_def Let_def take_map drop_map)

lemma update_map_inj:
  "inj_on g (insert k (fst ` set al)) \<Longrightarrow>
   AList.update (g k) (h v) (map (map_prod g h) al) = map (map_prod g h) (AList.update k v al)"
  by (induction al) (auto simp: inj_on_def)

lemma map_of_map_inj:
  "inj_on g (insert k (fst ` set al)) \<Longrightarrow>
   map_of (map (map_prod g h) al) (g k) = map_option h (map_of al k)"
  by (induction al) (auto simp: inj_on_def)

lemma fileOf_simps:
  "absolutePath (fileOf s f) = obj_absolutePath f" "file_hash (fileOf s f) = obj_hash f"
  "file_issues (fileOf s f) = issueArray s (obj_issues f)"
  by (simp_all add: fileOf_def)

lemma filter_hash_map:
  "filter (\<lambda>n. file_hash n = file_hash (fileOf s0 f)) (map (fileOf s0) xs)
     = map (fileOf s0) (filter (\<lambda>n. obj_hash n = obj_hash f) xs)"
  by (simp add: filter_map comp_def fileOf_simps)

lemma moveStepS_refines:
  assumes a: "fomA < length s" "nomA < length s" "fomA \<noteq> nomA" "k < length (fileArray s fomA)"
      and inj: "inj_on (fileOf s0) (set (fileArray s nomA) \<union> fst ` set mv)"
  shows "\<exists>mv' s'. moveStepS fomA nomA (fileArray s fomA ! k) k mv s = (Inr mv', s') \<and>
           moveStep k (map (fileOf s0) (fileArray s fomA), map (fileOf s0) (fileArray s nomA),
                       map (map_prod (fileOf s0) (fileOf s0)) mv)
             = (map (fileOf s0) (fileArray s' fomA), map (fileOf s0) (fileArray s' nomA),
                map (map_prod (fileOf s0) (fileOf s0)) mv') \<and>
           sameExcept {fomA, nomA} s s' \<and>
           set (fileArray s' nomA) \<union> fst ` set mv' \<subseteq> set (fileArray s nomA) \<union> fst ` set mv \<and>
           set (fileArray s' fomA) \<union> snd ` set mv' \<subseteq> set (fileArray s fomA) \<union> snd ` set mv"
proof (cases "filter (\<lambda>n. obj_hash n = obj_hash (fileArray s fomA ! k)) (fileArray s nomA)")
  case Nil
  then show ?thesis using a
    by (simp add: moveStepS_def moveStep_def allocate_def Let_def fileArray_append fileArray_Cons
        fileArray_Nil sameExcept_def nth_append filter_hash_map)
next
  case (Cons p ps)
  let ?fom = "fileArray s fomA" and ?nom = "fileArray s nomA"
  have "p \<in> set (filter (\<lambda>n. obj_hash n = obj_hash (?fom ! k)) ?nom)" using Cons by simp
  then have pm: "p \<in> set ?nom" by simp
  have i1: "inj_on (fileOf s0) (insert p (set ?nom))"
    using inj pm by (auto simp: inj_on_def)
  have i2: "inj_on (fileOf s0) (insert p (fst ` set mv))"
    using inj pm by (auto simp: inj_on_def)
  have sub1: "set (splice1 (indexOf ?nom p) ?nom) \<subseteq> set ?nom"
    using pm by (simp add: splice1_indexOf set_remove1_subset)
  have sub2: "set (splice1 (int k) ?fom) \<subseteq> set ?fom"
    using a(4) by (auto simp: splice1_nat dest: in_set_takeD in_set_dropD)
  have km: "?fom ! k \<in> set ?fom" using a(4) by simp
  have keys: "fst ` set (AList.update p (?fom ! k) mv) = insert p (fst ` set mv)"
    by (simp add: dom_update)
  have vals: "snd ` set (AList.update p (?fom ! k) mv) \<subseteq> insert (?fom ! k) (snd ` set mv)"
    by (induction mv) auto
  have sets: "set (splice1 (indexOf ?nom p) ?nom) \<subseteq> set ?nom \<union> fst ` set mv \<and>
        set (splice1 (int k) ?fom) \<subseteq> set ?fom \<union> snd ` set mv \<and>
        snd ` set (AList.update p (?fom ! k) mv) \<subseteq> set ?fom \<union> snd ` set mv"
  proof (intro conjI)
    show "set (splice1 (indexOf ?nom p) ?nom) \<subseteq> set ?nom \<union> fst ` set mv" using sub1 by (rule subset_trans) simp
    show "set (splice1 (int k) ?fom) \<subseteq> set ?fom \<union> snd ` set mv" using sub2 by (rule subset_trans) simp
    show "snd ` set (AList.update p (?fom ! k) mv) \<subseteq> set ?fom \<union> snd ` set mv"
    proof (rule subset_trans[OF vals])
      show "insert (?fom ! k) (snd ` set mv) \<subseteq> set ?fom \<union> snd ` set mv" using km by simp
    qed
  qed
  show ?thesis using a Cons pm sub1 sub2 keys vals
    apply (simp add: moveStepS_def moveStep_def allocate_def Let_def fileArray_append fileArray_Cons
        fileArray_Nil fileArray_assign length_assign nth_assign sameExcept_def nth_append
        filter_hash_map splice1_map indexOf_map_inj[OF i1] update_map_inj[OF i2])
    by (rule sets)
qed


lemma moveLoop_refines:
  assumes d: "fomA \<noteq> nomA"
  shows "fomA < length s \<Longrightarrow> nomA < length s \<Longrightarrow>
         inj_on (fileOf s0) (set (fileArray s nomA) \<union> fst ` set mv) \<Longrightarrow>
         \<exists>mv' s'. forEachAt fileArray fomA (moveStepS fomA nomA) k len mv s = (Inr mv', s') \<and>
           forEachFixedOrMoved k len
               (map (fileOf s0) (fileArray s fomA), map (fileOf s0) (fileArray s nomA),
                map (map_prod (fileOf s0) (fileOf s0)) mv)
             = (map (fileOf s0) (fileArray s' fomA), map (fileOf s0) (fileArray s' nomA),
                map (map_prod (fileOf s0) (fileOf s0)) mv') \<and>
           sameExcept {fomA, nomA} s s' \<and>
           set (fileArray s' nomA) \<union> fst ` set mv' \<subseteq> set (fileArray s nomA) \<union> fst ` set mv \<and>
           set (fileArray s' fomA) \<union> snd ` set mv' \<subseteq> set (fileArray s fomA) \<union> snd ` set mv"
proof (induction "len - k" arbitrary: k s mv)
  case 0
  then have "\<not> k < len" by simp
  then show ?case
    by (subst forEachAt.simps, subst forEachFixedOrMoved.simps) (simp add: sameExcept_refl)
next
  case (Suc n)
  then have kl: "k < len" by simp
  have n: "n = len - Suc k" using Suc.hyps(2) by simp
  show ?case
  proof (cases "k < length (fileArray s fomA)")
    case False
    from Suc.hyps(1)[OF n Suc.prems] obtain mv' s' where
      r: "forEachAt fileArray fomA (moveStepS fomA nomA) (Suc k) len mv s = (Inr mv', s')"
         "forEachFixedOrMoved (Suc k) len
               (map (fileOf s0) (fileArray s fomA), map (fileOf s0) (fileArray s nomA),
                map (map_prod (fileOf s0) (fileOf s0)) mv)
             = (map (fileOf s0) (fileArray s' fomA), map (fileOf s0) (fileArray s' nomA),
                map (map_prod (fileOf s0) (fileOf s0)) mv')"
         "sameExcept {fomA, nomA} s s'"
         "set (fileArray s' nomA) \<union> fst ` set mv' \<subseteq> set (fileArray s nomA) \<union> fst ` set mv"
         "set (fileArray s' fomA) \<union> snd ` set mv' \<subseteq> set (fileArray s fomA) \<union> snd ` set mv"
      by blast
    have run: "forEachAt fileArray fomA (moveStepS fomA nomA) k len mv s = (Inr mv', s')"
      using kl False r(1) by (subst forEachAt.simps) simp
    have pure: "forEachFixedOrMoved k len
               (map (fileOf s0) (fileArray s fomA), map (fileOf s0) (fileArray s nomA),
                map (map_prod (fileOf s0) (fileOf s0)) mv)
             = (map (fileOf s0) (fileArray s' fomA), map (fileOf s0) (fileArray s' nomA),
                map (map_prod (fileOf s0) (fileOf s0)) mv')"
      using kl False r(2) by (subst forEachFixedOrMoved.simps) simp
    show ?thesis using run pure r(3,4,5) by blast
  next
    case True
    from moveStepS_refines[OF Suc.prems(1,2) d True Suc.prems(3)] obtain mv1 s1 where
      s1: "moveStepS fomA nomA (fileArray s fomA ! k) k mv s = (Inr mv1, s1)"
          "moveStep k (map (fileOf s0) (fileArray s fomA), map (fileOf s0) (fileArray s nomA),
                       map (map_prod (fileOf s0) (fileOf s0)) mv)
             = (map (fileOf s0) (fileArray s1 fomA), map (fileOf s0) (fileArray s1 nomA),
                map (map_prod (fileOf s0) (fileOf s0)) mv1)"
          "sameExcept {fomA, nomA} s s1"
          "set (fileArray s1 nomA) \<union> fst ` set mv1 \<subseteq> set (fileArray s nomA) \<union> fst ` set mv"
          "set (fileArray s1 fomA) \<union> snd ` set mv1 \<subseteq> set (fileArray s fomA) \<union> snd ` set mv"
      by blast
    have l1: "fomA < length s1" "nomA < length s1"
      using s1(3) Suc.prems(1,2) by (simp_all add: sameExcept_def)
    have inj1: "inj_on (fileOf s0) (set (fileArray s1 nomA) \<union> fst ` set mv1)"
      using Suc.prems(3) s1(4) by (rule inj_on_subset)
    from Suc.hyps(1)[OF n l1 inj1] obtain mv' s' where
      r: "forEachAt fileArray fomA (moveStepS fomA nomA) (Suc k) len mv1 s1 = (Inr mv', s')"
         "forEachFixedOrMoved (Suc k) len
               (map (fileOf s0) (fileArray s1 fomA), map (fileOf s0) (fileArray s1 nomA),
                map (map_prod (fileOf s0) (fileOf s0)) mv1)
             = (map (fileOf s0) (fileArray s' fomA), map (fileOf s0) (fileArray s' nomA),
                map (map_prod (fileOf s0) (fileOf s0)) mv')"
         "sameExcept {fomA, nomA} s1 s'"
         "set (fileArray s' nomA) \<union> fst ` set mv' \<subseteq> set (fileArray s1 nomA) \<union> fst ` set mv1"
         "set (fileArray s' fomA) \<union> snd ` set mv' \<subseteq> set (fileArray s1 fomA) \<union> snd ` set mv1"
      by blast
    have run: "forEachAt fileArray fomA (moveStepS fomA nomA) k len mv s = (Inr mv', s')"
      using kl True s1(1) r(1) by (subst forEachAt.simps) simp
    have pure: "forEachFixedOrMoved k len
               (map (fileOf s0) (fileArray s fomA), map (fileOf s0) (fileArray s nomA),
                map (map_prod (fileOf s0) (fileOf s0)) mv)
             = (map (fileOf s0) (fileArray s' fomA), map (fileOf s0) (fileArray s' nomA),
                map (map_prod (fileOf s0) (fileOf s0)) mv')"
      using kl True s1(2) r(2) by (subst forEachFixedOrMoved.simps) simp
    have t1: "set (fileArray s' nomA) \<union> fst ` set mv' \<subseteq> set (fileArray s nomA) \<union> fst ` set mv"
      using r(4) s1(4) by (rule subset_trans)
    have t2: "set (fileArray s' fomA) \<union> snd ` set mv' \<subseteq> set (fileArray s fomA) \<union> snd ` set mv"
      using r(5) s1(5) by (rule subset_trans)
    show ?thesis using run pure sameExcept_trans[OF s1(3) r(3)] t1 t2 by blast
  qed
qed

lemma find_map_option: "find P (map g xs) = map_option g (find (\<lambda>x. P (g x)) xs)"
  by (induction xs) auto


lemma truthy_map_option: "truthy (map_option f x) = truthy x"
  by (simp add: truthy_def)


lemma preserved_trans:
  assumes "preserved a b" "preserved b c"
  shows "preserved a c"
proof -
  have ab: "length a \<le> length b" "take (length a) b = a" using assms(1) by (simp_all add: preserved_def)
  have bc: "length b \<le> length c" "take (length b) c = b" using assms(2) by (simp_all add: preserved_def)
  have "take (length a) (take (length b) c) = take (length a) c"
    using ab(1) by (simp add: min_def)
  then have "take (length a) c = a" using ab(2) bc(2) by simp
  then show ?thesis using ab(1) bc(1) by (simp add: preserved_def)
qed


lemma filterFilesS_eq:
  assumes "expected < length s" "result < length s"
  shows "filterFilesS expected result s =
     ((length s, length s + 1, length s + 2, length s + 3),
      s @ [FileArray (filter (\<lambda>r. truthy (find (\<lambda>e. obj_absolutePath e = obj_absolutePath r \<and>
                                                        obj_hash e = obj_hash r)
                                                  (fileArray s expected)))
                        (fileArray s result)),
           FileArray (filter (\<lambda>r. truthy (find (\<lambda>e. obj_absolutePath e = obj_absolutePath r \<and>
                                                        obj_hash e \<noteq> obj_hash r)
                                                  (fileArray s expected)))
                        (fileArray s result)),
           FileArray (filter (\<lambda>r. \<not> truthy (find (\<lambda>e. obj_absolutePath e = obj_absolutePath r)
                                                    (fileArray s expected)))
                        (fileArray s result)),
           FileArray (filter (\<lambda>e. \<not> truthy (find (\<lambda>r. obj_absolutePath r = obj_absolutePath e)
                                                    (fileArray s result)))
                        (fileArray s expected))])"
  using assms
  by (simp add: filterFilesS_def allocate_def Let_def fileArray_append)


lemma filters_refine:
  "map (fileOf s0) (filter (\<lambda>r. truthy (find (\<lambda>e. obj_absolutePath e = obj_absolutePath r \<and>
                                                        obj_hash e = obj_hash r) es)) rs)
     = unchangedResultFiles (map (fileOf s0) es) (map (fileOf s0) rs)"
  "map (fileOf s0) (filter (\<lambda>r. truthy (find (\<lambda>e. obj_absolutePath e = obj_absolutePath r \<and>
                                                        obj_hash e \<noteq> obj_hash r) es)) rs)
     = changedResultFiles (map (fileOf s0) es) (map (fileOf s0) rs)"
  "map (fileOf s0) (filter (\<lambda>r. \<not> truthy (find (\<lambda>e. obj_absolutePath e = obj_absolutePath r) es)) rs)
     = newOrMovedFiles (map (fileOf s0) es) (map (fileOf s0) rs)"
  "map (fileOf s0) (filter (\<lambda>e. \<not> truthy (find (\<lambda>r. obj_absolutePath r = obj_absolutePath e) rs)) es)
     = fixedOrMovedFiles (map (fileOf s0) es) (map (fileOf s0) rs)"
  by (simp_all add: unchangedResultFiles_def changedResultFiles_def newOrMovedFiles_def
      fixedOrMovedFiles_def filter_map comp_def find_map_option truthy_map_option fileOf_simps)

lemma existingStepS_refines:
  assumes p: "preserved s0 s" and e: "expected < length s0"
      and r: "obj_issues r < length s0"
      and es: "\<forall>e \<in> set (fileArray s0 expected) \<union> snd ` set mv. obj_issues e < length s0"
      and inj: "inj_on (fileOf s0) (insert r (fst ` set mv))"
  shows "fst (existingStepS expected mv r k d s) =
           existingStep (snapshotOf s0 expected) (map (map_prod (fileOf s0) (fileOf s0)) mv) (fileOf s0 r) d"
proof -
  let ?g = "fileOf s0"
  have l: "length s0 \<le> length s" using p by (simp add: preserved_def)
  have fa: "fileArray s expected = fileArray s0 expected" using preserved_read[OF p e] by simp
  have look: "expectedFileOf (snapshotOf s0 expected) (map (map_prod ?g ?g) mv) (?g r)
      = map_option ?g (case map_of mv r of Some x \<Rightarrow> Some x
                        | None \<Rightarrow> getFileS s expected (obj_absolutePath r))"
    by (simp add: expectedFileOf_def map_of_map_inj[OF inj] getFile_def getFileS_def snapshotOf_def
        find_map_option fileOf_simps fa split: option.splits)
  show ?thesis
  proof (cases "case map_of mv r of Some x \<Rightarrow> Some x | None \<Rightarrow> getFileS s expected (obj_absolutePath r)")
    case None
    then show ?thesis using look by (simp add: existingStepS_def existingStep_def)
  next
    case (Some x)
    have "x \<in> set (fileArray s0 expected) \<union> snd ` set mv"
    proof (cases "map_of mv r")
      case None
      then have "find (\<lambda>f. obj_absolutePath f = obj_absolutePath r) (fileArray s0 expected) = Some x"
        using Some by (simp add: getFileS_def fa)
      then show ?thesis by (auto simp: find_Some_iff)
    next
      case (Some y)
      then have "map_of mv r = Some x" using \<open>(case map_of mv r of Some x \<Rightarrow> Some x | None \<Rightarrow> _) = Some x\<close>
        by simp
      then have "(r, x) \<in> set mv" by (rule map_of_SomeD)
      then show ?thesis by force
    qed
    then have x: "obj_issues x < length s0" using es by blast
    have rx: "issueArray s (obj_issues x) = issueArray s0 (obj_issues x)"
             "issueArray s (obj_issues r) = issueArray s0 (obj_issues r)"
      using preserved_read[OF p x] preserved_read[OF p r] by simp_all
    have "fst (diffIssuesS (obj_issues x) (obj_issues r) s)
            = diffIssues (file_issues (?g x)) (file_issues (?g r))"
      using diffIssuesS_refines[of "obj_issues x" s "obj_issues r"] x r l
      by (simp add: rx fileOf_simps)
    then show ?thesis using Some look
      by (auto simp: existingStepS_def existingStep_def fileOf_simps
          split: prod.splits sum.splits option.splits)
  qed
qed

lemma existingLoop_refines:
  assumes e: "expected < length s0"
      and es: "\<forall>e \<in> set (fileArray s0 expected) \<union> snd ` set mv. obj_issues e < length s0"
      and xs: "\<forall>r \<in> set xs. obj_issues r < length s0"
      and inj: "inj_on (fileOf s0) (set xs \<union> fst ` set mv)"
      and exA: "exA < length sB" "fileArray sB exA = xs"
      and pB: "preserved s0 sB"
  shows "preserved sB s \<Longrightarrow> len = length xs \<Longrightarrow>
         fst (forEachAt fileArray exA (existingStepS expected mv) k len d s) =
           forEachExisting (snapshotOf s0 expected) (map (map_prod (fileOf s0) (fileOf s0)) mv)
             (drop k (map (fileOf s0) xs)) d"
proof (induction "len - k" arbitrary: k d s)
  case 0
  then have "\<not> k < len" by simp
  then show ?case using "0.prems" by (subst forEachAt.simps) simp
next
  case (Suc n)
  then have kl: "k < len" by simp
  have n: "n = len - Suc k" using Suc.hyps(2) by simp
  have rd: "fileArray s exA = xs" using preserved_read[OF Suc.prems(1) exA(1)] exA(2) by simp
  have inb: "k < length xs" using kl Suc.prems(2) by simp
  let ?x = "xs ! k"
  have xm: "?x \<in> set xs" using inb by simp
  have p0: "preserved s0 s" using pB Suc.prems(1) by (rule preserved_trans)
  have injx: "inj_on (fileOf s0) (insert ?x (fst ` set mv))"
    using inj xm by (auto simp: inj_on_def)
  obtain r1 s1 where st: "existingStepS expected mv ?x k d s = (r1, s1)"
    by (cases "existingStepS expected mv ?x k d s")
  have r1: "existingStep (snapshotOf s0 expected) (map (map_prod (fileOf s0) (fileOf s0)) mv)
                   (fileOf s0 ?x) d = r1"
    using existingStepS_refines[OF p0 e _ es injx, of k d] xs xm st by simp
  have p1: "preserved sB s1"
    using existingStepS_preserved[OF Suc.prems(1), of expected mv ?x k d] st by simp
  have dr: "drop k (map (fileOf s0) xs) = fileOf s0 ?x # drop (Suc k) (map (fileOf s0) xs)"
    using inb by (simp add: Cons_nth_drop_Suc[symmetric])
  show ?case
  proof (cases r1)
    case (Inl err)
    have "fst (forEachAt fileArray exA (existingStepS expected mv) k len d s) = Inl err"
      using kl inb rd st Inl by (subst forEachAt.simps) simp
    then show ?thesis unfolding dr by (simp add: r1 Inl)
  next
    case (Inr d1)
    have "fst (forEachAt fileArray exA (existingStepS expected mv) k len d s)
            = fst (forEachAt fileArray exA (existingStepS expected mv) (Suc k) len d1 s1)"
      using kl inb rd st Inr by (subst forEachAt.simps) simp
    also have "\<dots> = forEachExisting (snapshotOf s0 expected) (map (map_prod (fileOf s0) (fileOf s0)) mv)
             (drop (Suc k) (map (fileOf s0) xs)) d1"
      using Suc.hyps(1)[OF n p1 Suc.prems(2)] .
    finally show ?thesis unfolding dr by (simp add: r1 Inr)
  qed
qed

lemma fold_entries_refine:
  assumes "\<forall>f \<in> set fs. h f = h' (g f) \<and> obj_absolutePath f = absolutePath (g f)"
  shows "fold (\<lambda>file diff. diff(obj_absolutePath file \<mapsto> h file)) fs d
           = fold (\<lambda>file diff. diff(absolutePath file \<mapsto> h' file)) (map g fs) d"
  using assms by (induction fs arbitrary: d) simp_all

lemma differS_fst:
  assumes "filterFilesS expected result s0 = ((u, c, nom, fom), s1)"
      and "forEachArray fileArray fom (moveStepS fom nom) [] s1 = (Inr mv, s2)"
  shows "fst (differS expected result s0) =
     fst (forEachArray fileArray (length s2) (existingStepS expected mv)
            (fold (\<lambda>file diff. diff(obj_absolutePath file \<mapsto> newEntryS s2 file)) (fileArray s2 nom)
               (fold (\<lambda>file diff. diff(obj_absolutePath file \<mapsto> fixedEntryS s2 file))
                  (fileArray s2 fom) Map.empty))
            (s2 @ [FileArray (fileArray s2 u @ fileArray s2 c @ map fst mv)]))"
  by (simp add: differS_def assms Let_def allocate_def)

text \<open>
  The two embeddings agree: on a store that holds both snapshots, with no two file objects
  of the result snapshot of equal content, \<^const>\<open>differS\<close> returns the diff that
  \<^const>\<open>differ\<close> returns for the contents of the snapshots.
\<close>

lemma differS_refines:
  assumes se: "snapshotIn s0 expected" and sr: "snapshotIn s0 result"
      and inj: "inj_on (fileOf s0) (set (fileArray s0 result))"
  shows "fst (differS expected result s0) = differ (snapshotOf s0 expected) (snapshotOf s0 result)"
proof -
  let ?g = "fileOf s0" and ?L = "length s0"
  let ?Es = "fileArray s0 expected" and ?Rs = "fileArray s0 result"
  let ?E = "snapshotOf s0 expected" and ?R = "snapshotOf s0 result"
  let ?U = "filter (\<lambda>r. truthy (find (\<lambda>e. obj_absolutePath e = obj_absolutePath r \<and>
                                             obj_hash e = obj_hash r) ?Es)) ?Rs"
  let ?C = "filter (\<lambda>r. truthy (find (\<lambda>e. obj_absolutePath e = obj_absolutePath r \<and>
                                             obj_hash e \<noteq> obj_hash r) ?Es)) ?Rs"
  let ?N = "filter (\<lambda>r. \<not> truthy (find (\<lambda>e. obj_absolutePath e = obj_absolutePath r) ?Es)) ?Rs"
  let ?F = "filter (\<lambda>e. \<not> truthy (find (\<lambda>r. obj_absolutePath r = obj_absolutePath e) ?Rs)) ?Es"
  let ?s1 = "s0 @ [FileArray ?U, FileArray ?C, FileArray ?N, FileArray ?F]"
  have e: "expected < ?L" and r: "result < ?L" using se sr by (simp_all add: snapshotIn_def)
  have ei: "\<forall>f \<in> set ?Es. obj_issues f < ?L" and ri: "\<forall>f \<in> set ?Rs. obj_issues f < ?L"
    using se sr by (simp_all add: snapshotIn_def list_all_iff)
  have E: "?E = map ?g ?Es" and R: "?R = map ?g ?Rs" by (simp_all add: snapshotOf_def)
  note f = filterFilesS_eq[OF e r]
  have rd1: "fileArray ?s1 ?L = ?U" "fileArray ?s1 (?L + 1) = ?C"
            "fileArray ?s1 (?L + 2) = ?N" "fileArray ?s1 (?L + 3) = ?F"
    by (simp_all add: fileArray_append fileArray_Cons)
  let ?mv0 = "[] :: (FileObject \<times> FileObject) list"
  have injN: "inj_on ?g (set (fileArray ?s1 (?L + 2)) \<union> fst ` set ?mv0)"
    unfolding rd1 using inj by (auto simp: inj_on_def)
  have "\<exists>mv' s'. forEachAt fileArray (?L + 3) (moveStepS (?L + 3) (?L + 2)) 0 (length ?F) ?mv0 ?s1
                     = (Inr mv', s') \<and>
           forEachFixedOrMoved 0 (length ?F)
               (map ?g (fileArray ?s1 (?L + 3)), map ?g (fileArray ?s1 (?L + 2)),
                map (map_prod ?g ?g) ?mv0)
             = (map ?g (fileArray s' (?L + 3)), map ?g (fileArray s' (?L + 2)),
                map (map_prod ?g ?g) mv') \<and>
           sameExcept {?L + 3, ?L + 2} ?s1 s' \<and>
           set (fileArray s' (?L + 2)) \<union> fst ` set mv' \<subseteq> set (fileArray ?s1 (?L + 2)) \<union> fst ` set ?mv0 \<and>
           set (fileArray s' (?L + 3)) \<union> snd ` set mv' \<subseteq> set (fileArray ?s1 (?L + 3)) \<union> snd ` set ?mv0"
    by (rule moveLoop_refines[OF _ _ _ injN]) simp_all
  then obtain mv s2 where
    l: "forEachArray fileArray (?L + 3) (moveStepS (?L + 3) (?L + 2)) [] ?s1 = (Inr mv, s2)"
    and dm: "detectMoves ?E ?R
             = (map ?g (fileArray s2 (?L + 3)), map ?g (fileArray s2 (?L + 2)), map (map_prod ?g ?g) mv)"
    and se2: "sameExcept {?L + 3, ?L + 2} ?s1 s2"
    and subN: "set (fileArray s2 (?L + 2)) \<union> fst ` set mv \<subseteq> set ?N"
    and subF: "set (fileArray s2 (?L + 3)) \<union> snd ` set mv \<subseteq> set ?F"
    unfolding forEachArray_def detectMoves_def rd1 E R filters_refine[symmetric] Let_def
    by auto
  have p1: "preserved s0 ?s1" by (simp add: preserved_def)
  have "preserved s0 (snd (forEachArray fileArray (?L + 3) (moveStepS (?L + 3) (?L + 2)) [] ?s1))"
  proof (rule forEachArray_preserved)
    show "\<And>x k acc s. preserved s0 s \<Longrightarrow> preserved s0 (snd (moveStepS (?L + 3) (?L + 2) x k acc s))"
      by (rule moveStepS_preserved) simp_all
    show "preserved s0 ?s1" by (rule p1)
  qed
  then have p2: "preserved s0 s2" using l by simp
  have rd2: "fileArray s2 ?L = ?U" "fileArray s2 (?L + 1) = ?C"
    using sameExcept_read[OF se2, of ?L] sameExcept_read[OF se2, of "?L + 1"] rd1 by simp_all
  have fx: "fixedFiles ?E ?R = map ?g (fileArray s2 (?L + 3))"
    and nw: "newFiles ?E ?R = map ?g (fileArray s2 (?L + 2))"
    and mvd: "movedFiles ?E ?R = map (map_prod ?g ?g) mv"
    by (simp_all add: fixedFiles_def newFiles_def movedFiles_def dm)
  have fI: "\<forall>f \<in> set (fileArray s2 (?L + 3)). obj_issues f < ?L" using subF ei by auto
  have nI: "\<forall>f \<in> set (fileArray s2 (?L + 2)). obj_issues f < ?L" using subN ri by auto
  have d1: "fold (\<lambda>file diff. diff(obj_absolutePath file \<mapsto> fixedEntryS s2 file))
              (fileArray s2 (?L + 3)) Map.empty
            = fold (\<lambda>file diff. diff(absolutePath file \<mapsto> fixedEntry file)) (fixedFiles ?E ?R) Map.empty"
    unfolding fx
  proof (rule fold_entries_refine, intro ballI)
    fix f assume "f \<in> set (fileArray s2 (?L + 3))"
    then have "obj_issues f < ?L" using fI by blast
    then show "fixedEntryS s2 f = fixedEntry (?g f) \<and> obj_absolutePath f = absolutePath (?g f)"
      using preserved_read[OF p2] by (simp add: fixedEntryS_def fixedEntry_def fileOf_simps)
  qed
  have d2: "\<And>d. fold (\<lambda>file diff. diff(obj_absolutePath file \<mapsto> newEntryS s2 file))
              (fileArray s2 (?L + 2)) d
            = fold (\<lambda>file diff. diff(absolutePath file \<mapsto> newEntry file)) (newFiles ?E ?R) d"
    unfolding nw
  proof (rule fold_entries_refine, intro ballI)
    fix f assume "f \<in> set (fileArray s2 (?L + 2))"
    then have "obj_issues f < ?L" using nI by blast
    then show "newEntryS s2 f = newEntry (?g f) \<and> obj_absolutePath f = absolutePath (?g f)"
      using preserved_read[OF p2] by (simp add: newEntryS_def newEntry_def fileOf_simps)
  qed
  let ?xs = "?U @ ?C @ map fst mv"
  let ?sB = "s2 @ [FileArray ?xs]"
  have ex: "existingFiles ?E ?R = map ?g ?xs"
    unfolding existingFiles_def mvd by (simp add: E R filters_refine[symmetric] comp_def)
  have keys: "fst ` set mv \<subseteq> set ?Rs" using subN by auto
  have vals: "snd ` set mv \<subseteq> set ?Es" using subF by auto
  have xsR: "set ?xs \<subseteq> set ?Rs" using keys by auto
  have a1: "\<forall>e \<in> set ?Es \<union> snd ` set mv. obj_issues e < ?L" using ei vals by auto
  have a2: "\<forall>r \<in> set ?xs. obj_issues r < ?L" using ri xsR by blast
  have a3: "inj_on ?g (set ?xs \<union> fst ` set mv)"
    using inj xsR keys by (auto simp: inj_on_def)
  have a4: "length s2 < length ?sB" "fileArray ?sB (length s2) = ?xs"
    by (simp_all add: fileArray_append fileArray_Cons)
  have a5: "preserved s0 ?sB" using p2 by (simp add: preserved_def)
  have loop: "\<And>d. fst (forEachAt fileArray (length s2) (existingStepS expected mv) 0 (length ?xs) d ?sB)
      = forEachExisting ?E (map (map_prod ?g ?g) mv) (drop 0 (map ?g ?xs)) d"
    by (rule existingLoop_refines[OF e a1 a2 a3 a4 a5 preserved_refl]) simp
  have "fst (differS expected result s0) =
     fst (forEachArray fileArray (length s2) (existingStepS expected mv)
            (fold (\<lambda>file diff. diff(obj_absolutePath file \<mapsto> newEntryS s2 file)) (fileArray s2 (?L + 2))
               (fold (\<lambda>file diff. diff(obj_absolutePath file \<mapsto> fixedEntryS s2 file))
                  (fileArray s2 (?L + 3)) Map.empty))
            (s2 @ [FileArray (fileArray s2 ?L @ fileArray s2 (?L + 1) @ map fst mv)]))"
    by (rule differS_fst[OF f l])
  also have "\<dots> = fst (forEachArray fileArray (length s2) (existingStepS expected mv)
            (fold (\<lambda>file diff. diff(absolutePath file \<mapsto> newEntry file)) (newFiles ?E ?R)
               (fold (\<lambda>file diff. diff(absolutePath file \<mapsto> fixedEntry file))
                  (fixedFiles ?E ?R) Map.empty))
            ?sB)"
    by (simp only: rd2 d1 d2)
  also have "\<dots> = forEachExisting ?E (map (map_prod ?g ?g) mv) (map ?g ?xs)
            (fold (\<lambda>file diff. diff(absolutePath file \<mapsto> newEntry file)) (newFiles ?E ?R)
               (fold (\<lambda>file diff. diff(absolutePath file \<mapsto> fixedEntry file))
                  (fixedFiles ?E ?R) Map.empty))"
    unfolding forEachArray_def a4(2) loop by simp
  also have "\<dots> = differ ?E ?R"
    unfolding differ_def Let_def ex mvd by simp
  finally show ?thesis .
qed

subsection \<open>The entry of an issue-diffed file in the returned diff\<close>

lemma fixed_reported:
  assumes "e \<in> set (fixedOrMovedIssues expectedIssues resultIssues)"
      and "\<forall>r \<in> set (newOrMovedIssues expectedIssues resultIssues). issue_hash r \<noteq> issue_hash e"
  shows "\<exists>d fx. diffIssues expectedIssues resultIssues = Inr (Some d) \<and>
                 diff_fixed d = Some fx \<and> serialiseIssue e \<in> set fx"
proof -
  obtain new mv fx where m: "matchIssues expectedIssues resultIssues = Inr (new, mv, fx)"
    using matchIssues_total by blast
  have "e \<in> set fx"
    using fixed_in_loop[OF m[unfolded matchIssues_def] _ assms(2)] assms(1) by simp
  then show ?thesis using diffIssues_cases[OF m] by auto
qed

lemma forEachExisting_other:
  "forEachExisting E mv rs diff = Inr diff' \<Longrightarrow> p \<notin> absolutePath ` set rs \<Longrightarrow> diff' p = diff p"
proof (induction rs arbitrary: diff)
  case Nil
  then show ?case by simp
next
  case (Cons x rs)
  from Cons.prems(1) obtain d1 where d1: "existingStep E mv x diff = Inr d1"
      "forEachExisting E mv rs d1 = Inr diff'"
    by (auto split: sum.splits)
  have "d1 p = diff p" using d1(1) Cons.prems(2)
    by (auto simp: existingStep_def split: option.splits sum.splits)
  then show ?case using Cons.IH[OF d1(2)] Cons.prems(2) by simp
qed

lemma forEachExisting_entry:
  assumes "distinct (map absolutePath rs)" "r \<in> set rs"
      and "expectedFileOf E mv r = Some ef"
      and "diffIssues (file_issues ef) (file_issues r) = Inr (Some d)"
      and "forEachExisting E mv rs diff = Inr diff'"
  shows "diff' (absolutePath r) = Some d"
  using assms(1,2,5)
proof (induction rs arbitrary: diff)
  case Nil
  then show ?case by simp
next
  case (Cons x rs)
  from Cons.prems(3) obtain d1 where d1: "existingStep E mv x diff = Inr d1"
      "forEachExisting E mv rs d1 = Inr diff'"
    by (auto split: sum.splits)
  show ?case
  proof (cases "x = r")
    case True
    have "d1 (absolutePath r) = Some d"
      using d1(1) True assms(3,4) by (auto simp: existingStep_def)
    moreover have "absolutePath r \<notin> absolutePath ` set rs" using Cons.prems(1) True by auto
    ultimately show ?thesis using forEachExisting_other[OF d1(2)] by simp
  next
    case False
    then have "r \<in> set rs" using Cons.prems(2) by simp
    then show ?thesis using Cons.IH[OF _ _ d1(2)] Cons.prems(1) by simp
  qed
qed

lemma existingFiles_distinct_paths:
  assumes de: "distinct (map absolutePath expectedFiles)"
      and dr: "distinct (map absolutePath resultFiles)"
  shows "distinct (map absolutePath (existingFiles expectedFiles resultFiles))"
proof -
  let ?U = "unchangedResultFiles expectedFiles resultFiles"
  let ?C = "changedResultFiles expectedFiles resultFiles"
  let ?K = "map fst (movedFiles expectedFiles resultFiles)"
  have dR: "distinct resultFiles" and injR: "inj_on absolutePath (set resultFiles)"
    using dr by (simp_all add: distinct_map)
  have dn: "distinct (newOrMovedFiles expectedFiles resultFiles)"
    using dR by (simp add: newOrMovedFiles_def)
  have m: "mset (newFiles expectedFiles resultFiles) + mset ?K
             = mset (newOrMovedFiles expectedFiles resultFiles)"
    using detectMoves_inv[OF dr, of expectedFiles] by (simp add: moveInv_def)
  then have "mset (newFiles expectedFiles resultFiles @ ?K) = mset (newOrMovedFiles expectedFiles resultFiles)"
    by simp
  then have "distinct (newFiles expectedFiles resultFiles @ ?K)"
    using dn by (metis mset_eq_imp_distinct_iff)
  then have dK: "distinct ?K" by simp
  have "set ?K \<subseteq> set (newOrMovedFiles expectedFiles resultFiles)"
    using m by (metis mset_subset_eq_add_right set_mset_mono set_mset_mset)
  then have K: "\<forall>r \<in> set ?K. r \<in> set resultFiles \<and>
                   \<not> (\<exists>e \<in> set expectedFiles. absolutePath e = absolutePath r)"
    by (auto simp: newOrMovedFiles_def truthy_find)
  have dU: "distinct ?U" and dC: "distinct ?C"
    using dR by (simp_all add: unchangedResultFiles_def changedResultFiles_def)
  have UC: "set ?U \<inter> set ?C = {}"
  proof -
    have "\<And>r. r \<in> set ?U \<Longrightarrow> r \<in> set ?C \<Longrightarrow> False"
      unfolding unchanged_iff changed_iff using same_path_same_file[OF de] by metis
    then show ?thesis by blast
  qed
  have UK: "set ?U \<inter> set ?K = {}" and CK: "set ?C \<inter> set ?K = {}"
    using K by (auto simp: unchanged_iff changed_iff)
  have dall: "distinct (?U @ ?C @ ?K)" using dU dC dK UC UK CK by auto
  have sub: "set (?U @ ?C @ ?K) \<subseteq> set resultFiles"
    using K by (auto simp: unchanged_iff changed_iff)
  have "inj_on absolutePath (set (?U @ ?C @ ?K))" using injR sub by (rule inj_on_subset)
  then show ?thesis unfolding existingFiles_def using dall by (simp only: distinct_map)
qed

lemma differ_entry_of_existing:
  assumes de: "distinct (map absolutePath expectedFiles)"
      and dr: "distinct (map absolutePath resultFiles)"
      and r: "r \<in> set (existingFiles expectedFiles resultFiles)"
      and ef: "expectedFileOf expectedFiles (movedFiles expectedFiles resultFiles) r = Some ef"
      and d: "diffIssues (file_issues ef) (file_issues r) = Inr (Some d)"
  shows "\<exists>diff. differ expectedFiles resultFiles = Inr diff \<and> diff (absolutePath r) = Some d"
proof -
  obtain diff where diff: "differ expectedFiles resultFiles = Inr diff"
    using differ_cases by blast
  then have "diff (absolutePath r) = Some d"
    unfolding differ_def Let_def
    using forEachExisting_entry[OF existingFiles_distinct_paths[OF de dr] r ef d] by blast
  then show ?thesis using diff by blast
qed

section \<open>The claims\<close>

text \<open>
  Claim C1 (the moved issue is the nearest candidate by line distance, then by column
  distance). The code does not do this: a candidate at the same line distance as the
  current best is dismissed by the \<open>\<ge>\<close> test of line 114 before the column tests of
  lines 120 to 125 are reached, and a candidate that passes line 114 becomes the best at
  line 118, so that line 120 compares it with itself. The expected issue at line 10,
  column 5 has two candidates at line 11, at columns 9 and 5: the first one (column 9) is
  kept as the moved issue and the nearer one (column 5) is reported as new.
\<close>

theorem ties_on_line_ignore_column:
  "entryAt ''/a''
     (differ [mkFile ''/a'' ''h1'' [mkIssue 10 5 ''X'']]
             [mkFile ''/a'' ''h2'' [mkIssue 11 9 ''X'', mkIssue 11 5 ''X'']])
   = Inr (Some \<lparr>diff_existing = Some [serialiseIssue (mkIssue 11 9 ''X'')],
                 diff_fixed = Some [],
                 diff_new = Some [serialiseIssue (mkIssue 11 5 ''X'')]\<rparr>)"
  by code_simp

text \<open>
  Claim C2 (the exact-match pass pairs issues one to one, so that surplus duplicates stay
  in the pools). The code tests membership instead: an expected issue is unchanged when
  \<^emph>\<open>some\<close> result issue agrees with it on line, column, length and hash, and a result
  issue is unchanged when some expected issue agrees with it; the pools hold exactly the
  issues without any partner. Two equal expected issues are both consumed by a single
  result issue: nothing is left in \<^verbatim>\<open>fixedOrMovedIssues\<close>, and the file, which lost
  one of its two issues, has no entry in the diff.
\<close>

theorem duplicate_exact_matches_all_consumed:
  "unchangedExpectedIssues [mkIssue 1 1 ''X'', mkIssue 1 1 ''X''] [mkIssue 1 1 ''X'']
     = [mkIssue 1 1 ''X'', mkIssue 1 1 ''X''] \<and>
   unchangedResultIssues [mkIssue 1 1 ''X'', mkIssue 1 1 ''X''] [mkIssue 1 1 ''X'']
     = [mkIssue 1 1 ''X''] \<and>
   fixedOrMovedIssues [mkIssue 1 1 ''X'', mkIssue 1 1 ''X''] [mkIssue 1 1 ''X''] = [] \<and>
   entryAt ''/a''
     (differ [mkFile ''/a'' ''h1'' [mkIssue 1 1 ''X'', mkIssue 1 1 ''X'']]
             [mkFile ''/a'' ''h2'' [mkIssue 1 1 ''X'']])
     = Inr None"
  by code_simp

text \<open>
  Claim C2 as amended: the exact-match pass classifies by membership of the
  (line, column, length, hash) tuple on the other side; every copy of a tuple that occurs
  on both sides is unchanged, and the pools are the issues whose tuple does not occur on
  the other side at all.
\<close>

theorem exact_match_is_membership:
  "unchangedExpectedIssues expectedIssues resultIssues =
      filter (\<lambda>e. \<exists>r \<in> set resultIssues. sameIssue r e) expectedIssues \<and>
   unchangedResultIssues expectedIssues resultIssues =
      filter (\<lambda>r. \<exists>e \<in> set expectedIssues. sameIssue e r) resultIssues \<and>
   fixedOrMovedIssues expectedIssues resultIssues =
      filter (\<lambda>e. \<not> (\<exists>r \<in> set resultIssues. sameIssue r e)) expectedIssues \<and>
   newOrMovedIssues expectedIssues resultIssues =
      filter (\<lambda>r. \<not> (\<exists>e \<in> set expectedIssues. sameIssue e r)) resultIssues"
  by (rule exact_match_filters)

theorem exact_match_is_membership_witness:
  "fixedOrMovedIssues
      [\<lparr>issue_line = 1, issue_column = 1, issue_length = 5, issue_message = ''m'', issue_hash = ''X''\<rparr>,
       \<lparr>issue_line = 1, issue_column = 1, issue_length = 5, issue_message = ''m'', issue_hash = ''X''\<rparr>,
       \<lparr>issue_line = 2, issue_column = 1, issue_length = 5, issue_message = ''m'', issue_hash = ''Y''\<rparr>]
      [\<lparr>issue_line = 1, issue_column = 1, issue_length = 5, issue_message = ''other'', issue_hash = ''X''\<rparr>]
     = [\<lparr>issue_line = 2, issue_column = 1, issue_length = 5, issue_message = ''m'', issue_hash = ''Y''\<rparr>]"
  using exact_match_is_membership
    [of "[\<lparr>issue_line = 1, issue_column = 1, issue_length = 5, issue_message = ''m'', issue_hash = ''X''\<rparr>,
       \<lparr>issue_line = 1, issue_column = 1, issue_length = 5, issue_message = ''m'', issue_hash = ''X''\<rparr>,
       \<lparr>issue_line = 2, issue_column = 1, issue_length = 5, issue_message = ''m'', issue_hash = ''Y''\<rparr>]"
        "[\<lparr>issue_line = 1, issue_column = 1, issue_length = 5, issue_message = ''other'', issue_hash = ''X''\<rparr>]"]
  by (simp add: sameIssue_def)

text \<open>
  Claim C3 (move detection looks at every file of \<^verbatim>\<open>fixedOrMovedFiles\<close>). The code does
  not: the callback removes the current element from the array that \<^verbatim>\<open>forEach\<close> is
  iterating, so the element that follows a moved file slides into the index just visited
  and is never looked at. With expected files \<^verbatim>\<open>/a\<close> (hash h1), \<^verbatim>\<open>/b\<close> (hash h2) and
  result files \<^verbatim>\<open>/c\<close> (h1), \<^verbatim>\<open>/d\<close> (h2), only \<^verbatim>\<open>/a\<close> is paired; \<^verbatim>\<open>/b\<close> stays a
  fixed file and \<^verbatim>\<open>/d\<close> a new file although their hashes are equal, and the diff
  reports the issue of \<^verbatim>\<open>/b\<close> as fixed and the issue of \<^verbatim>\<open>/d\<close> as new.
\<close>

theorem file_after_a_move_is_skipped:
  "detectMoves
     [mkFile ''/a'' ''h1'' [mkIssue 1 1 ''X''], mkFile ''/b'' ''h2'' [mkIssue 2 1 ''Y'']]
     [mkFile ''/c'' ''h1'' [mkIssue 1 1 ''X''], mkFile ''/d'' ''h2'' [mkIssue 2 1 ''Y'']]
   = ([mkFile ''/b'' ''h2'' [mkIssue 2 1 ''Y'']],
      [mkFile ''/d'' ''h2'' [mkIssue 2 1 ''Y'']],
      [(mkFile ''/c'' ''h1'' [mkIssue 1 1 ''X''], mkFile ''/a'' ''h1'' [mkIssue 1 1 ''X''])]) \<and>
   entryAt ''/b''
     (differ [mkFile ''/a'' ''h1'' [mkIssue 1 1 ''X''], mkFile ''/b'' ''h2'' [mkIssue 2 1 ''Y'']]
             [mkFile ''/c'' ''h1'' [mkIssue 1 1 ''X''], mkFile ''/d'' ''h2'' [mkIssue 2 1 ''Y'']])
     = Inr (Some \<lparr>diff_existing = None, diff_fixed = Some [serialiseIssue (mkIssue 2 1 ''Y'')],
                   diff_new = None\<rparr>) \<and>
   entryAt ''/d''
     (differ [mkFile ''/a'' ''h1'' [mkIssue 1 1 ''X''], mkFile ''/b'' ''h2'' [mkIssue 2 1 ''Y'']]
             [mkFile ''/c'' ''h1'' [mkIssue 1 1 ''X''], mkFile ''/d'' ''h2'' [mkIssue 2 1 ''Y'']])
     = Inr (Some \<lparr>diff_existing = None, diff_fixed = None,
                   diff_new = Some [serialiseIssue (mkIssue 2 1 ''Y'')]\<rparr>)"
  by code_simp

text \<open>
  Claim C4 (an entry exists exactly for files with a fixed or a new issue). The gate of
  line 140 guards the \<^verbatim>\<open>existingFiles\<close> loop only: lines 59 to 69 give every fixed file
  and every new file an entry, whatever its issues. A new file without issues has an
  entry with an empty \<^verbatim>\<open>new\<close> list, although no issue of it is fixed or new.
\<close>

theorem issueless_new_file_has_entry:
  "entryAt ''/a'' (differ [] [mkFile ''/a'' ''h'' []])
     = Inr (Some \<lparr>diff_existing = None, diff_fixed = None, diff_new = Some []\<rparr>) \<and>
   file_issues (mkFile ''/a'' ''h'' []) = []"
  by code_simp

text \<open>
  Claim C4 as amended: the diff has an entry at a path exactly when the path is that of
  a fixed file or of a new file (with or without issues), or that of a file of the
  \<^verbatim>\<open>existingFiles\<close> loop (unchanged, changed or moved) whose issue matching leaves a fixed
  or a new issue. With unique paths, such a file has an entry exactly when it passes that
  gate: a wholly unchanged file, a file whose only differences are moved issues and a
  moved file without issue changes have none.
\<close>

theorem entry_iff_reported:
  "\<exists>diff. differ expectedFiles resultFiles = Inr diff \<and>
     (\<forall>path. (diff path \<noteq> None) =
        ((\<exists>f \<in> set (fixedFiles expectedFiles resultFiles). absolutePath f = path) \<or>
         (\<exists>f \<in> set (newFiles expectedFiles resultFiles). absolutePath f = path) \<or>
         (\<exists>r \<in> set (existingFiles expectedFiles resultFiles).
             absolutePath r = path \<and> reported expectedFiles (movedFiles expectedFiles resultFiles) r))) \<and>
     (distinct (map absolutePath expectedFiles) \<and> distinct (map absolutePath resultFiles) \<longrightarrow>
        (\<forall>r \<in> set (existingFiles expectedFiles resultFiles).
           (diff (absolutePath r) \<noteq> None) = reported expectedFiles (movedFiles expectedFiles resultFiles) r))"
proof -
  from differ_cases[of expectedFiles resultFiles] obtain diff where
    d: "differ expectedFiles resultFiles = Inr diff"
       "\<forall>path. (diff path \<noteq> None) =
        ((\<exists>f \<in> set (fixedFiles expectedFiles resultFiles). absolutePath f = path) \<or>
         (\<exists>f \<in> set (newFiles expectedFiles resultFiles). absolutePath f = path) \<or>
         (\<exists>r \<in> set (existingFiles expectedFiles resultFiles).
             absolutePath r = path \<and> reported expectedFiles (movedFiles expectedFiles resultFiles) r))"
    by blast
  have "distinct (map absolutePath expectedFiles) \<and> distinct (map absolutePath resultFiles) \<longrightarrow>
        (\<forall>r \<in> set (existingFiles expectedFiles resultFiles).
           (diff (absolutePath r) \<noteq> None) = reported expectedFiles (movedFiles expectedFiles resultFiles) r)"
    using existing_entry_gate[OF _ _ _ d(1)] by blast
  then show ?thesis using d by blast
qed

theorem entry_iff_reported_witness:
  "distinct (map absolutePath [mkFile ''/a'' ''h1'' [mkIssue 1 1 ''X'']]) \<and>
   distinct (map absolutePath [mkFile ''/a'' ''h2'' [mkIssue 5 1 ''X'']]) \<and>
   mkFile ''/a'' ''h2'' [mkIssue 5 1 ''X''] \<in>
     set (existingFiles [mkFile ''/a'' ''h1'' [mkIssue 1 1 ''X'']] [mkFile ''/a'' ''h2'' [mkIssue 5 1 ''X'']]) \<and>
   \<not> reported [mkFile ''/a'' ''h1'' [mkIssue 1 1 ''X'']]
        (movedFiles [mkFile ''/a'' ''h1'' [mkIssue 1 1 ''X'']] [mkFile ''/a'' ''h2'' [mkIssue 5 1 ''X'']])
        (mkFile ''/a'' ''h2'' [mkIssue 5 1 ''X'']) \<and>
   entryAt ''/a'' (differ [mkFile ''/a'' ''h1'' [mkIssue 1 1 ''X'']] [mkFile ''/a'' ''h2'' [mkIssue 5 1 ''X'']])
     = Inr None"
proof -
  let ?E = "[mkFile ''/a'' ''h1'' [mkIssue 1 1 ''X'']]"
  let ?R = "[mkFile ''/a'' ''h2'' [mkIssue 5 1 ''X'']]"
  let ?r = "mkFile ''/a'' ''h2'' [mkIssue 5 1 ''X'']"
  have h: "distinct (map absolutePath ?E) \<and> distinct (map absolutePath ?R)" by simp
  have ex: "?r \<in> set (existingFiles ?E ?R)" by code_simp
  have nr: "\<not> reported ?E (movedFiles ?E ?R) ?r" by code_simp
  from entry_iff_reported[of ?E ?R] obtain diff where
    d: "differ ?E ?R = Inr diff" and
    g: "distinct (map absolutePath ?E) \<and> distinct (map absolutePath ?R) \<longrightarrow>
          (\<forall>r \<in> set (existingFiles ?E ?R).
             (diff (absolutePath r) \<noteq> None) = reported ?E (movedFiles ?E ?R) r)"
    by blast
  have "diff (absolutePath ?r) = None" using g h ex nr by blast
  then have "entryAt ''/a'' (differ ?E ?R) = Inr None"
    using d by (simp add: entryAt_def mkFile_def)
  then show ?thesis using h ex nr by blast
qed

text \<open>
  Claim C5 (partition completeness). For snapshots with unique paths: every result file
  is in exactly one of the classes unchanged, changed, moved (a key of \<^verbatim>\<open>movedFiles\<close>),
  new; every expected file is in exactly one of the classes unchanged or changed (by the
  result file at its path), moved (a value of \<^verbatim>\<open>movedFiles\<close>), fixed; and for every pair
  of files that reaches the issue loop, the result issues are, counted with
  multiplicity, the unchanged ones, the moved ones and the new ones, and the expected
  issues are the unchanged ones, the fixed ones and one issue per moved issue, of the
  same hash.
\<close>

theorem partition_completeness:
  assumes "distinct (map absolutePath expectedFiles)" and "distinct (map absolutePath resultFiles)"
  shows "(\<forall>r \<in> set resultFiles.
            exactlyOne [r \<in> set (unchangedResultFiles expectedFiles resultFiles),
                        r \<in> set (changedResultFiles expectedFiles resultFiles),
                        r \<in> fst ` set (movedFiles expectedFiles resultFiles),
                        r \<in> set (newFiles expectedFiles resultFiles)]) \<and>
         (\<forall>e \<in> set expectedFiles.
            exactlyOne [\<exists>r \<in> set (unchangedResultFiles expectedFiles resultFiles). absolutePath r = absolutePath e,
                        \<exists>r \<in> set (changedResultFiles expectedFiles resultFiles). absolutePath r = absolutePath e,
                        e \<in> snd ` set (movedFiles expectedFiles resultFiles),
                        e \<in> set (fixedFiles expectedFiles resultFiles)]) \<and>
         (\<forall>r \<in> set (existingFiles expectedFiles resultFiles).
            \<exists>e new mv fx mf.
               expectedFileOf expectedFiles (movedFiles expectedFiles resultFiles) r = Some e \<and>
               matchIssues (file_issues e) (file_issues r) = Inr (new, mv, fx) \<and>
               mset (file_issues r) =
                 mset (unchangedResultIssues (file_issues e) (file_issues r)) + mset mv + mset new \<and>
               mset (file_issues e) =
                 mset (unchangedExpectedIssues (file_issues e) (file_issues r)) + mset fx + mset mf \<and>
               map issue_hash mf = map issue_hash mv)"
proof (intro conjI ballI)
  fix r assume "r \<in> set resultFiles"
  then show "exactlyOne [r \<in> set (unchangedResultFiles expectedFiles resultFiles),
                        r \<in> set (changedResultFiles expectedFiles resultFiles),
                        r \<in> fst ` set (movedFiles expectedFiles resultFiles),
                        r \<in> set (newFiles expectedFiles resultFiles)]"
    using result_files_partition[OF assms] by blast
next
  fix e assume "e \<in> set expectedFiles"
  then show "exactlyOne [\<exists>r \<in> set (unchangedResultFiles expectedFiles resultFiles). absolutePath r = absolutePath e,
                        \<exists>r \<in> set (changedResultFiles expectedFiles resultFiles). absolutePath r = absolutePath e,
                        e \<in> snd ` set (movedFiles expectedFiles resultFiles),
                        e \<in> set (fixedFiles expectedFiles resultFiles)]"
    using expected_files_partition[OF assms] by blast
next
  fix r assume "r \<in> set (existingFiles expectedFiles resultFiles)"
  then obtain e where e: "expectedFileOf expectedFiles (movedFiles expectedFiles resultFiles) r = Some e"
    using existingFiles_expected by blast
  from issues_partition[of "file_issues e" "file_issues r"] e
  show "\<exists>e new mv fx mf.
               expectedFileOf expectedFiles (movedFiles expectedFiles resultFiles) r = Some e \<and>
               matchIssues (file_issues e) (file_issues r) = Inr (new, mv, fx) \<and>
               mset (file_issues r) =
                 mset (unchangedResultIssues (file_issues e) (file_issues r)) + mset mv + mset new \<and>
               mset (file_issues e) =
                 mset (unchangedExpectedIssues (file_issues e) (file_issues r)) + mset fx + mset mf \<and>
               map issue_hash mf = map issue_hash mv"
    by blast
qed

theorem partition_completeness_witness:
  "distinct (map absolutePath [mkFile ''/a'' ''h1'' [mkIssue 1 1 ''X'']]) \<and>
   distinct (map absolutePath [mkFile ''/b'' ''h1'' [mkIssue 4 1 ''X'']]) \<and>
   movedFiles [mkFile ''/a'' ''h1'' [mkIssue 1 1 ''X'']] [mkFile ''/b'' ''h1'' [mkIssue 4 1 ''X'']]
     = [(mkFile ''/b'' ''h1'' [mkIssue 4 1 ''X''], mkFile ''/a'' ''h1'' [mkIssue 1 1 ''X''])] \<and>
   exactlyOne
     [mkFile ''/b'' ''h1'' [mkIssue 4 1 ''X''] \<in> set (unchangedResultFiles
          [mkFile ''/a'' ''h1'' [mkIssue 1 1 ''X'']] [mkFile ''/b'' ''h1'' [mkIssue 4 1 ''X'']]),
      mkFile ''/b'' ''h1'' [mkIssue 4 1 ''X''] \<in> set (changedResultFiles
          [mkFile ''/a'' ''h1'' [mkIssue 1 1 ''X'']] [mkFile ''/b'' ''h1'' [mkIssue 4 1 ''X'']]),
      mkFile ''/b'' ''h1'' [mkIssue 4 1 ''X''] \<in> fst ` set (movedFiles
          [mkFile ''/a'' ''h1'' [mkIssue 1 1 ''X'']] [mkFile ''/b'' ''h1'' [mkIssue 4 1 ''X'']]),
      mkFile ''/b'' ''h1'' [mkIssue 4 1 ''X''] \<in> set (newFiles
          [mkFile ''/a'' ''h1'' [mkIssue 1 1 ''X'']] [mkFile ''/b'' ''h1'' [mkIssue 4 1 ''X'']])]"
proof -
  let ?E = "[mkFile ''/a'' ''h1'' [mkIssue 1 1 ''X'']]"
  let ?R = "[mkFile ''/b'' ''h1'' [mkIssue 4 1 ''X'']]"
  have h1: "distinct (map absolutePath ?E)" by simp
  have h2: "distinct (map absolutePath ?R)" by simp
  have mv: "movedFiles ?E ?R = [(mkFile ''/b'' ''h1'' [mkIssue 4 1 ''X''], mkFile ''/a'' ''h1'' [mkIssue 1 1 ''X''])]"
    by code_simp
  show ?thesis using partition_completeness[OF h1 h2] h1 h2 mv by simp
qed

text \<open>
  Claim C6 (idempotence). For a snapshot whose paths are unique (the invariant of a
  snapshot), the diff of the snapshot against itself has no entry.
\<close>

theorem differ_self_empty:
  assumes "distinct (map absolutePath s)"
  shows "differ s s = Inr Map.empty"
proof -
  have fom: "fixedOrMovedFiles s s = []"
    by (auto simp: fixedOrMovedFiles_def truthy_find filter_empty_conv)
  have nom: "newOrMovedFiles s s = []"
    by (auto simp: newOrMovedFiles_def truthy_find filter_empty_conv)
  have dm: "detectMoves s s = ([], [], [])"
    by (simp add: detectMoves_def fom nom forEachFixedOrMoved.simps)
  have ex: "set (existingFiles s s) \<subseteq> set s"
    by (auto simp: existingFiles_def movedFiles_def dm unchangedResultFiles_def changedResultFiles_def)
  show ?thesis
    using forEachExisting_same[OF assms ex]
    by (simp add: differ_def fixedFiles_def newFiles_def movedFiles_def dm)
qed

theorem differ_self_empty_witness:
  "distinct (map absolutePath
      [\<lparr>absolutePath = ''/a'', file_hash = ''h1'', file_issues =
          [\<lparr>issue_line = 1, issue_column = 1, issue_length = 5, issue_message = ''m'', issue_hash = ''X''\<rparr>]\<rparr>,
       \<lparr>absolutePath = ''/b'', file_hash = ''h1'', file_issues = []\<rparr>]) \<and>
   differ
      [\<lparr>absolutePath = ''/a'', file_hash = ''h1'', file_issues =
          [\<lparr>issue_line = 1, issue_column = 1, issue_length = 5, issue_message = ''m'', issue_hash = ''X''\<rparr>]\<rparr>,
       \<lparr>absolutePath = ''/b'', file_hash = ''h1'', file_issues = []\<rparr>]
      [\<lparr>absolutePath = ''/a'', file_hash = ''h1'', file_issues =
          [\<lparr>issue_line = 1, issue_column = 1, issue_length = 5, issue_message = ''m'', issue_hash = ''X''\<rparr>]\<rparr>,
       \<lparr>absolutePath = ''/b'', file_hash = ''h1'', file_issues = []\<rparr>]
     = Inr Map.empty"
proof -
  let ?s = "[\<lparr>absolutePath = ''/a'', file_hash = ''h1'', file_issues =
          [\<lparr>issue_line = 1, issue_column = 1, issue_length = 5, issue_message = ''m'', issue_hash = ''X''\<rparr>]\<rparr>,
       \<lparr>absolutePath = ''/b'', file_hash = ''h1'', file_issues = []\<rparr>]"
  have h: "distinct (map absolutePath ?s)" by simp
  show ?thesis using differ_self_empty[OF h] h by simp
qed

text \<open>
  Claim C7 (fixed detection). For a matched pair of files, an expected issue that the
  exact-match pass leaves in \<^verbatim>\<open>fixedOrMovedIssues\<close> and whose hash is the hash of no
  issue of \<^verbatim>\<open>newOrMovedIssues\<close> is reported: the callback assigns an entry for the file,
  and the entry's \<^verbatim>\<open>fixed\<close> list holds the serialised issue. With unique paths that
  entry is the one the returned diff holds at the path of the result file.
\<close>

theorem unmatched_hash_is_fixed:
  "(e \<in> set (fixedOrMovedIssues expectedIssues resultIssues) \<and>
    (\<forall>x \<in> set (newOrMovedIssues expectedIssues resultIssues). issue_hash x \<noteq> issue_hash e) \<longrightarrow>
      (\<exists>d fx. diffIssues expectedIssues resultIssues = Inr (Some d) \<and>
               diff_fixed d = Some fx \<and> serialiseIssue e \<in> set fx)) \<and>
   (distinct (map absolutePath expectedFiles) \<and> distinct (map absolutePath resultFiles) \<and>
    r \<in> set (existingFiles expectedFiles resultFiles) \<and>
    expectedFileOf expectedFiles (movedFiles expectedFiles resultFiles) r = Some ef \<and>
    e' \<in> set (fixedOrMovedIssues (file_issues ef) (file_issues r)) \<and>
    (\<forall>x \<in> set (newOrMovedIssues (file_issues ef) (file_issues r)). issue_hash x \<noteq> issue_hash e') \<longrightarrow>
      (\<exists>diff d fx. differ expectedFiles resultFiles = Inr diff \<and>
               diff (absolutePath r) = Some d \<and> diff_fixed d = Some fx \<and> serialiseIssue e' \<in> set fx))"
proof (intro conjI impI)
  assume a: "e \<in> set (fixedOrMovedIssues expectedIssues resultIssues) \<and>
    (\<forall>x \<in> set (newOrMovedIssues expectedIssues resultIssues). issue_hash x \<noteq> issue_hash e)"
  show "\<exists>d fx. diffIssues expectedIssues resultIssues = Inr (Some d) \<and>
               diff_fixed d = Some fx \<and> serialiseIssue e \<in> set fx"
    using fixed_reported[of e expectedIssues resultIssues] a by blast
next
  assume a: "distinct (map absolutePath expectedFiles) \<and> distinct (map absolutePath resultFiles) \<and>
    r \<in> set (existingFiles expectedFiles resultFiles) \<and>
    expectedFileOf expectedFiles (movedFiles expectedFiles resultFiles) r = Some ef \<and>
    e' \<in> set (fixedOrMovedIssues (file_issues ef) (file_issues r)) \<and>
    (\<forall>x \<in> set (newOrMovedIssues (file_issues ef) (file_issues r)). issue_hash x \<noteq> issue_hash e')"
  then obtain d fx where d: "diffIssues (file_issues ef) (file_issues r) = Inr (Some d)"
      "diff_fixed d = Some fx" "serialiseIssue e' \<in> set fx"
    using fixed_reported[of e' "file_issues ef" "file_issues r"] by blast
  from differ_entry_of_existing[OF _ _ _ _ d(1)] a obtain diff where
    "differ expectedFiles resultFiles = Inr diff" "diff (absolutePath r) = Some d" by blast
  then show "\<exists>diff d fx. differ expectedFiles resultFiles = Inr diff \<and>
               diff (absolutePath r) = Some d \<and> diff_fixed d = Some fx \<and> serialiseIssue e' \<in> set fx"
    using d(2,3) by blast
qed


theorem unmatched_hash_is_fixed_witness:
  "distinct (map absolutePath [mkFile ''/a'' ''h1'' [mkIssue 3 2 ''X'']]) \<and>
   distinct (map absolutePath [mkFile ''/a'' ''h2'' [mkIssue 3 2 ''Y'']]) \<and>
   mkFile ''/a'' ''h2'' [mkIssue 3 2 ''Y'']
     \<in> set (existingFiles [mkFile ''/a'' ''h1'' [mkIssue 3 2 ''X'']] [mkFile ''/a'' ''h2'' [mkIssue 3 2 ''Y'']]) \<and>
   expectedFileOf [mkFile ''/a'' ''h1'' [mkIssue 3 2 ''X'']]
       (movedFiles [mkFile ''/a'' ''h1'' [mkIssue 3 2 ''X'']] [mkFile ''/a'' ''h2'' [mkIssue 3 2 ''Y'']])
       (mkFile ''/a'' ''h2'' [mkIssue 3 2 ''Y''])
     = Some (mkFile ''/a'' ''h1'' [mkIssue 3 2 ''X'']) \<and>
   fixedOrMovedIssues [mkIssue 3 2 ''X''] [mkIssue 3 2 ''Y''] = [mkIssue 3 2 ''X''] \<and>
   newOrMovedIssues [mkIssue 3 2 ''X''] [mkIssue 3 2 ''Y''] = [mkIssue 3 2 ''Y''] \<and>
   (\<exists>diff d fx.
       differ [mkFile ''/a'' ''h1'' [mkIssue 3 2 ''X'']] [mkFile ''/a'' ''h2'' [mkIssue 3 2 ''Y'']] = Inr diff \<and>
       diff ''/a'' = Some d \<and> diff_fixed d = Some fx \<and> serialiseIssue (mkIssue 3 2 ''X'') \<in> set fx)"
proof -
  let ?E = "[mkFile ''/a'' ''h1'' [mkIssue 3 2 ''X'']]"
  let ?R = "[mkFile ''/a'' ''h2'' [mkIssue 3 2 ''Y'']]"
  let ?r = "mkFile ''/a'' ''h2'' [mkIssue 3 2 ''Y'']"
  let ?ef = "mkFile ''/a'' ''h1'' [mkIssue 3 2 ''X'']"
  have h1: "distinct (map absolutePath ?E)" and h2: "distinct (map absolutePath ?R)" by simp_all
  have h3: "?r \<in> set (existingFiles ?E ?R)" by code_simp
  have h4: "expectedFileOf ?E (movedFiles ?E ?R) ?r = Some ?ef" by code_simp
  have fo: "fixedOrMovedIssues [mkIssue 3 2 ''X''] [mkIssue 3 2 ''Y''] = [mkIssue 3 2 ''X'']" by code_simp
  have no: "newOrMovedIssues [mkIssue 3 2 ''X''] [mkIssue 3 2 ''Y''] = [mkIssue 3 2 ''Y'']" by code_simp
  have fi: "file_issues ?ef = [mkIssue 3 2 ''X'']" "file_issues ?r = [mkIssue 3 2 ''Y'']"
    by (simp_all add: mkFile_def)
  have h5: "mkIssue 3 2 ''X'' \<in> set (fixedOrMovedIssues (file_issues ?ef) (file_issues ?r))"
    unfolding fi fo by simp
  have h6: "\<forall>x \<in> set (newOrMovedIssues (file_issues ?ef) (file_issues ?r)).
              issue_hash x \<noteq> issue_hash (mkIssue 3 2 ''X'')"
    unfolding fi no by (simp add: mkIssue_def)
  have p: "absolutePath ?r = ''/a''" by (simp add: mkFile_def)
  from unmatched_hash_is_fixed[of _ "[]" "[]" ?E ?R ?r ?ef "mkIssue 3 2 ''X''"] h1 h2 h3 h4 h5 h6
  have "\<exists>diff d fx. differ ?E ?R = Inr diff \<and> diff (absolutePath ?r) = Some d \<and>
           diff_fixed d = Some fx \<and> serialiseIssue (mkIssue 3 2 ''X'') \<in> set fx"
    by blast
  then show ?thesis using h1 h2 h3 h4 fo no unfolding p by blast
qed

text \<open>
  Claim C8 (the merge command). Once \<^verbatim>\<open>setEnv\<close> has returned: whatever failure
  \<^verbatim>\<open>betterer.merge\<close> raises, the action returns normally (the failure does not leave
  it) with \<^verbatim>\<open>process.exitCode\<close> set to 1, which is not 0; and when \<^verbatim>\<open>betterer.merge\<close>
  succeeds the action returns the process state exactly as the collaborator left it, the
  exit code included.
\<close>

theorem merge_failure_sets_exit_code:
  assumes "setEnv config proc = (Inr (), proc1)"
      and "betterer_merge \<lparr>contents = args, cwd = cwd', resultsPath = results config\<rparr> proc1 = (outcome, proc2)"
  shows "(\<forall>err. outcome = Inl err \<longrightarrow>
            mergeAction setEnv betterer_merge cwd' config args proc = (Inr (), proc2\<lparr>exitCode := Some 1\<rparr>) \<and>
            exitCode (snd (mergeAction setEnv betterer_merge cwd' config args proc)) \<noteq> Some 0) \<and>
         (outcome = Inr () \<longrightarrow>
            mergeAction setEnv betterer_merge cwd' config args proc = (Inr (), proc2))"
  using assms by (auto simp: mergeAction_def)

theorem merge_failure_sets_exit_code_witness:
  "mergeAction (\<lambda>config proc. (Inr (), proc)) (\<lambda>options proc. (Inl ''conflict'', proc))
      ''/repo'' \<lparr>results = ''.betterer.results''\<rparr> [''ours'', ''theirs''] \<lparr>exitCode = None\<rparr>
     = (Inr (), \<lparr>exitCode = Some 1\<rparr>) \<and>
   mergeAction (\<lambda>config proc. (Inr (), proc)) (\<lambda>options proc. (Inr (), proc))
      ''/repo'' \<lparr>results = ''.betterer.results''\<rparr> [''ours'', ''theirs''] \<lparr>exitCode = None\<rparr>
     = (Inr () :: string + unit, \<lparr>exitCode = None\<rparr>)"
proof -
  have a: "mergeAction (\<lambda>config proc. (Inr (), proc)) (\<lambda>options proc. (Inl ''conflict'', proc))
      ''/repo'' \<lparr>results = ''.betterer.results''\<rparr> [''ours'', ''theirs''] \<lparr>exitCode = None\<rparr>
     = (Inr (), \<lparr>exitCode = Some 1\<rparr>)"
    using merge_failure_sets_exit_code
      [of "\<lambda>config proc. (Inr (), proc)" "\<lparr>results = ''.betterer.results''\<rparr>" "\<lparr>exitCode = None\<rparr>"
          "\<lparr>exitCode = None\<rparr>" "\<lambda>options proc. (Inl ''conflict'', proc)"
          "[''ours'', ''theirs'']" "''/repo''" "Inl ''conflict''" "\<lparr>exitCode = None\<rparr>"]
    by simp
  have b: "mergeAction (\<lambda>config proc. (Inr (), proc)) (\<lambda>options proc. (Inr (), proc))
      ''/repo'' \<lparr>results = ''.betterer.results''\<rparr> [''ours'', ''theirs''] \<lparr>exitCode = None\<rparr>
     = (Inr () :: string + unit, \<lparr>exitCode = None\<rparr>)"
    by (simp add: mergeAction_def)
  show ?thesis using a b by blast
qed

text \<open>
  Claim C9 (frame property). Whatever the store holds when \<^verbatim>\<open>differ\<close> is called, the
  store it leaves agrees with it on every address that existed before the call: the
  \<^verbatim>\<open>files\<close> arrays of both snapshots and the \<^verbatim>\<open>issues\<close> array of every file hold what
  they held, and so both snapshots read the same before and after. Every array that
  \<^verbatim>\<open>splice\<close>, \<^verbatim>\<open>shift\<close> or \<^verbatim>\<open>push\<close> changes was allocated during the call. The
  diff returned over the store is the diff of the pure embedding for the contents of the
  two snapshots (when no two file objects of the result snapshot have equal content).
\<close>

theorem differ_leaves_inputs_unchanged:
  "take (length s0) (snd (differS expected result s0)) = s0 \<and>
   (\<forall>a < length s0.
       fileArray (snd (differS expected result s0)) a = fileArray s0 a \<and>
       issueArray (snd (differS expected result s0)) a = issueArray s0 a) \<and>
   (snapshotIn s0 expected \<longrightarrow>
       snapshotOf (snd (differS expected result s0)) expected = snapshotOf s0 expected) \<and>
   (snapshotIn s0 result \<longrightarrow>
       snapshotOf (snd (differS expected result s0)) result = snapshotOf s0 result) \<and>
   (snapshotIn s0 expected \<and> snapshotIn s0 result \<and> inj_on (fileOf s0) (set (fileArray s0 result)) \<longrightarrow>
       fst (differS expected result s0) = differ (snapshotOf s0 expected) (snapshotOf s0 result))"
  using differS_preserved[of s0 expected result] preserved_read[of s0 "snd (differS expected result s0)"]
    snapshotOf_preserved[of s0 "snd (differS expected result s0)"]
    differS_refines[of s0 expected result]
  by (simp add: preserved_def)

theorem differ_leaves_inputs_unchanged_witness:
  "snapshotIn exampleStore 2 \<and> snapshotIn exampleStore 3 \<and>
   inj_on (fileOf exampleStore) (set (fileArray exampleStore 3)) \<and>
   entryAt ''/a'' (fst (differS 2 3 exampleStore))
     = Inr (Some \<lparr>diff_existing = Some [(11, 9, 5, ''m'', ''X'')], diff_fixed = Some [],
                   diff_new = Some [(30, 1, 5, ''m'', ''Y'')]\<rparr>) \<and>
   fst (differS 2 3 exampleStore) = differ (snapshotOf exampleStore 2) (snapshotOf exampleStore 3) \<and>
   length (snd (differS 2 3 exampleStore)) = 17 \<and>
   take 4 (snd (differS 2 3 exampleStore)) = exampleStore \<and>
   snapshotOf (snd (differS 2 3 exampleStore)) 2 = [mkFile ''/a'' ''h1'' [mkIssue 10 5 ''X'']] \<and>
   snapshotOf (snd (differS 2 3 exampleStore)) 3
     = [mkFile ''/a'' ''h2'' [mkIssue 11 9 ''X'', mkIssue 30 1 ''Y'']]"
proof -
  have w2: "snapshotIn exampleStore 2" by code_simp
  have w3: "snapshotIn exampleStore 3" by code_simp
  have fa: "fileArray exampleStore 3 = [\<lparr>obj_absolutePath = ''/a'', obj_hash = ''h2'', obj_issues = 1\<rparr>]"
    by code_simp
  have inj: "inj_on (fileOf exampleStore) (set (fileArray exampleStore 3))"
    unfolding fa by simp
  have l: "length exampleStore = 4" by (simp add: exampleStore_def)
  have e: "entryAt ''/a'' (fst (differS 2 3 exampleStore))
     = Inr (Some \<lparr>diff_existing = Some [(11, 9, 5, ''m'', ''X'')], diff_fixed = Some [],
                   diff_new = Some [(30, 1, 5, ''m'', ''Y'')]\<rparr>)" by code_simp
  have n: "length (snd (differS 2 3 exampleStore)) = 17" by code_simp
  have s2: "snapshotOf exampleStore 2 = [mkFile ''/a'' ''h1'' [mkIssue 10 5 ''X'']]" by code_simp
  have s3: "snapshotOf exampleStore 3 = [mkFile ''/a'' ''h2'' [mkIssue 11 9 ''X'', mkIssue 30 1 ''Y'']]"
    by code_simp
  note t = differ_leaves_inputs_unchanged[of exampleStore 2 3]
  have r: "fst (differS 2 3 exampleStore) = differ (snapshotOf exampleStore 2) (snapshotOf exampleStore 3)"
    using t w2 w3 inj by blast
  have k: "take 4 (snd (differS 2 3 exampleStore)) = exampleStore" using t l by simp
  have k2: "snapshotOf (snd (differS 2 3 exampleStore)) 2 = snapshotOf exampleStore 2"
    using t w2 by blast
  have k3: "snapshotOf (snd (differS 2 3 exampleStore)) 3 = snapshotOf exampleStore 3"
    using t w3 by blast
  show ?thesis using w2 w3 inj e r n k k2 k3 s2 s3 by simp
qed

text \<open>
  Claim C10 (the two \<^verbatim>\<open>assert(best)\<close> never fire). For every expected issue and every
  state of the working arrays, the callback that holds both assertions returns; and for
  every pair of snapshots \<^verbatim>\<open>differ\<close> returns a diff: no assertion and no other throw is
  reached.
\<close>

theorem differ_never_aborts:
  "(\<exists>st'. issueStep fixedOrMovedIssue st = Inr st') \<and>
   (\<exists>diff. differ expectedFiles resultFiles = Inr diff)"
proof
  obtain n m f where st: "st = (n, m, f)" by (cases st) auto
  show "\<exists>st'. issueStep fixedOrMovedIssue st = Inr st'"
    unfolding st issueStep_cases by (simp add: Let_def)
  show "\<exists>diff. differ expectedFiles resultFiles = Inr diff"
    using differ_cases[of expectedFiles resultFiles] by blast
qed

end
